theory Spec2Isabelle
  imports
    Complex_Main
    "HOL-Library.Word"
    "HOL-Library.AList"
    "HOL-Library.Char_ord"
    "HOL-Library.List_Lexorder"
    "HOL-Library.Sublist"
    "HOL-Library.Log_Nat"
begin

unbundle bit_operations_syntax

section \<open>The analytics module of the study-material generator\<close>

text \<open>
  A shallow embedding of \<^verbatim>\<open>src/core/analytics.py\<close>. Python strings are \<^typ>\<open>string\<close>;
  one \<^typ>\<open>char\<close> stands for one character of the Python string, so \<^const>\<open>length\<close>
  and \<^const>\<open>take\<close> count what \<^verbatim>\<open>len\<close> and slicing count, for the code points
  below 256. A Python \<^verbatim>\<open>dict\<close> is an association list in insertion order:
  \<^const>\<open>map_of\<close> is the lookup, \<^const>\<open>AList.update\<close> is the assignment
  \<^verbatim>\<open>d[k] = v\<close> (in place for a key that is there, at the end for a new one).
\<close>

subsection \<open>Data model\<close>

type_synonym ('k, 'v) dict = "('k \<times> 'v) list"

text \<open>\<^verbatim>\<open>k in d\<close> for a dictionary.\<close>

definition has_key :: "'k \<Rightarrow> ('k, 'v) dict \<Rightarrow> bool" where
  "has_key k d = (k \<in> set (map fst d))"

text \<open>
  Python's truth value of an \<^verbatim>\<open>Optional[str]\<close>: \<^verbatim>\<open>None\<close> and the empty string
  are false.
\<close>

fun truthy :: "string option \<Rightarrow> bool" where
  "truthy None = False"
| "truthy (Some s) = (s \<noteq> [])"

text \<open>An entry of the \<^verbatim>\<open>questions\<close> list of a chunk record.\<close>

record question_entry =
  q_question :: string
  q_correct :: bool
  q_timestamp :: string

text \<open>
  A value of \<^verbatim>\<open>state.chunk_performance\<close>, with the keys
  \<^verbatim>\<open>record_quiz_answer\<close> creates it with. A field that is \<^verbatim>\<open>None\<close> in Python
  is \<^const>\<open>None\<close> here.
\<close>

record chunk_record =
  cr_correct :: int
  cr_incorrect :: int
  cr_attempts :: int
  cr_last_attempt :: "string option"
  cr_source_reference :: string
  cr_filename :: "string option"
  cr_questions :: "question_entry list"

text \<open>
  The state object of one user. \<^verbatim>\<open>file_mapping\<close> and \<^verbatim>\<open>chunk_performance\<close> may be
  missing from an old state or be \<^verbatim>\<open>None\<close>: both are \<^const>\<open>None\<close> here, which is
  what the tests \<^verbatim>\<open>not hasattr(state, f) or state.f is None\<close> ask.
\<close>

record state =
  st_file_mapping :: "(string, string) dict option"
  st_chunk_performance :: "(string, chunk_record) dict option"

subsection \<open>Python floats\<close>

text \<open>
  A Python float is an IEEE 754 double. A finite one is given by its sign (\<^const>\<open>True\<close>
  for a negative one, so that \<^verbatim>\<open>-0.0\<close> is there) and the rational that its
  magnitude denotes; the others that the expressions of this module can give are the two
  infinities.
\<close>

datatype pyfloat = Finite bool rat | Infinite bool

text \<open>The exceptions that the arithmetic of this module can raise.\<close>

datatype error = ZeroDivisionError | OverflowError

definition pow2 :: "int \<Rightarrow> rat" where
  "pow2 k = (if k \<ge> 0 then 2 ^ nat k else 1 / 2 ^ nat (- k))"

text \<open>For \<open>x > 0\<close>, the exponent \<open>e\<close> with \<open>2\<^sup>e \<le> x < 2\<^sup>e\<^sup>+\<^sup>1\<close>.\<close>

definition floor_log2 :: "rat \<Rightarrow> int" where
  "floor_log2 x =
     (case quotient_of x of
        (p, q) \<Rightarrow> (let d = bitlen p - bitlen q in if pow2 d \<le> x then d else d - 1))"

text \<open>Rounding to the nearest integer, a tie going to the even one.\<close>

definition round_half_even :: "rat \<Rightarrow> int" where
  "round_half_even y =
     (let f = \<lfloor>y\<rfloor>; d = y - of_int f
      in if d < 1 / 2 then f else if d > 1 / 2 then f + 1 else if even f then f else f + 1)"

text \<open>
  The magnitude of the double nearest to the magnitude \<open>x\<close> (round to nearest, ties to
  even): 53 significant bits, or the multiples of \<open>2\<^sup>-\<^sup>1\<^sup>0\<^sup>7\<^sup>4\<close> below
  \<open>2\<^sup>-\<^sup>1\<^sup>0\<^sup>2\<^sup>2\<close>. From \<open>overflow_threshold\<close> on, half way between the greatest
  double and \<open>2\<^sup>1\<^sup>0\<^sup>2\<^sup>4\<close>, a magnitude rounds to no finite double.
\<close>

definition round_double :: "rat \<Rightarrow> rat" where
  "round_double x =
     (if x = 0 then 0
      else (let e = floor_log2 x; s = 52 - max e (- 1022)
            in of_int (round_half_even (x * pow2 s)) * pow2 (- s)))"

definition overflow_threshold :: rat where
  "overflow_threshold = 2 ^ 1024 - 2 ^ 970"

text \<open>
  \<^verbatim>\<open>a / b\<close> for two \<^verbatim>\<open>int\<close>: the double nearest to the quotient, and
  \<^verbatim>\<open>OverflowError\<close> when that is no finite double.
\<close>

definition py_truediv :: "int \<Rightarrow> int \<Rightarrow> error + pyfloat" where
  "py_truediv a b =
     (if b = 0 then Inl ZeroDivisionError
      else (let x = \<bar>of_int a / of_int b :: rat\<bar>
            in if x \<ge> overflow_threshold then Inl OverflowError
               else Inr (Finite ((a < 0) \<noteq> (b < 0)) (round_double x))))"

text \<open>
  \<^verbatim>\<open>x * 100\<close> for a float \<open>x\<close>: the \<^verbatim>\<open>int\<close> 100 is the float 100.0, and the
  product is rounded, to an infinity when it is too large.
\<close>

definition py_times_100 :: "pyfloat \<Rightarrow> pyfloat" where
  "py_times_100 x =
     (case x of
        Infinite neg \<Rightarrow> Infinite neg
      | Finite neg m \<Rightarrow>
          if m * 100 \<ge> overflow_threshold then Infinite neg
          else Finite neg (round_double (m * 100)))"

text \<open>
  The dictionary \<^verbatim>\<open>get_chunk_performance\<close> and \<^verbatim>\<open>get_all_chunk_performance\<close>
  return for one chunk. A key that a result does not have (\<^verbatim>\<open>filename\<close>,
  \<^verbatim>\<open>last_attempt\<close>) reads as \<^const>\<open>None\<close>, as \<^verbatim>\<open>.get\<close> reads it.
\<close>

record metrics =
  m_correct :: int
  m_incorrect :: int
  m_attempts :: int
  m_accuracy :: pyfloat
  m_source_reference :: string
  m_filename :: "string option"
  m_last_attempt :: "string option"

subsection \<open>The collaborators: persistence and logging\<close>

text \<open>
  What the module does to the outside: the snapshot stored for each user name, the
  \<^verbatim>\<open>save_state\<close> calls made so far, and the messages sent to the logger.
\<close>

record world =
  store :: "string option \<Rightarrow> state"
  saves :: "(string option \<times> state) list"
  events :: "string list"

text \<open>
  Modelled from the spec: \<^verbatim>\<open>load_state\<close> of \<^verbatim>\<open>src/core/memory.py\<close>, which is not
  among the sources. It returns the full snapshot persisted for the user name.
\<close>

definition load_state :: "string option \<Rightarrow> world \<Rightarrow> state" where
  "load_state username w = store w username"

text \<open>
  Modelled from the spec: \<^verbatim>\<open>save_state\<close> of \<^verbatim>\<open>src/core/memory.py\<close>, which is not
  among the sources. It overwrites the snapshot persisted for the user name; the call is
  recorded.
\<close>

definition save_state :: "state \<Rightarrow> string option \<Rightarrow> world \<Rightarrow> world" where
  "save_state s username w =
     w\<lparr>store := (store w)(username := s), saves := saves w @ [(username, s)]\<rparr>"

text \<open>\<^verbatim>\<open>logger.get_logger().info(msg)\<close>.\<close>

definition log_info :: "string \<Rightarrow> world \<Rightarrow> world" where
  "log_info msg w = w\<lparr>events := events w @ [msg]\<rparr>"

subsection \<open>File identifiers\<close>

text \<open>
  \<^verbatim>\<open>hashlib.md5(...).hexdigest()\<close> prints the 128 bits of the digest as 32 lower-case
  hexadecimal digits, the first byte first. The digest function itself is a parameter
  \<open>md5\<close> of every operation that hashes a file name.
\<close>

definition hex_digit :: "nat \<Rightarrow> char" where
  "hex_digit n = ''0123456789abcdef'' ! (n mod 16)"

definition hexdigest :: "128 word \<Rightarrow> string" where
  "hexdigest d = map (\<lambda>i. hex_digit (unat (drop_bit (4 * (31 - i)) d AND 15))) [0..<32]"

text \<open>\<^verbatim>\<open>hashlib.md5(filename.encode()).hexdigest()[:8]\<close>\<close>

definition file_hash_of :: "(string \<Rightarrow> 128 word) \<Rightarrow> string \<Rightarrow> string" where
  "file_hash_of md5 filename = take 8 (hexdigest (md5 filename))"

subsection \<open>File registry\<close>

text \<open>\<^verbatim>\<open>register_file\<close>: the file hash returned, and the world after the call.\<close>

definition register_file ::
  "(string \<Rightarrow> 128 word) \<Rightarrow> string \<Rightarrow> string option \<Rightarrow> world \<Rightarrow> string \<times> world" where
  "register_file md5 filename username w =
     (let state = load_state username w;
          file_mapping = (case st_file_mapping state of None \<Rightarrow> [] | Some fm \<Rightarrow> fm);
          file_hash = file_hash_of md5 filename
      in if \<not> has_key file_hash file_mapping then
           (file_hash,
            log_info (''Registered file: '' @ filename @ '' -> '' @ file_hash)
              (save_state
                 (state\<lparr>st_file_mapping := Some (AList.update file_hash filename file_mapping)\<rparr>)
                 username w))
         else (file_hash, w))"

subsection \<open>Chunk performance ledger\<close>

text \<open>
  Lines 68 to 100 of \<^verbatim>\<open>record_quiz_answer\<close>: what the call does to the entry of its
  key, \<open>old\<close> being the entry found there (\<^const>\<open>None\<close> when the key is new). The two
  readings of the clock, for \<^verbatim>\<open>last_attempt\<close> and for the question's timestamp, are
  the parameters \<open>now1\<close> and \<open>now2\<close>.
\<close>

definition answer_record ::
  "chunk_record option \<Rightarrow> string \<Rightarrow> bool \<Rightarrow> string \<Rightarrow> string option \<Rightarrow> string \<Rightarrow> string
     \<Rightarrow> chunk_record" where
  "answer_record old source_reference is_correct question_text filename now1 now2 =
     (let r0 = (case old of
                  None \<Rightarrow>
                    \<lparr>cr_correct = 0, cr_incorrect = 0, cr_attempts = 0, cr_last_attempt = None,
                     cr_source_reference = source_reference, cr_filename = filename,
                     cr_questions = []\<rparr>
                | Some r \<Rightarrow>
                    if truthy filename \<and> \<not> truthy (cr_filename r)
                    then r\<lparr>cr_filename := filename\<rparr> else r);
          r1 = r0\<lparr>cr_attempts := cr_attempts r0 + 1\<rparr>;
          r2 = (if is_correct then r1\<lparr>cr_correct := cr_correct r1 + 1\<rparr>
                else r1\<lparr>cr_incorrect := cr_incorrect r1 + 1\<rparr>);
          r3 = r2\<lparr>cr_last_attempt := Some now1\<rparr>
      in if question_text \<noteq> [] then
           (let qs = cr_questions r3 @
                  [\<lparr>q_question = take 200 question_text, q_correct = is_correct,
                    q_timestamp = now2\<rparr>]
            in r3\<lparr>cr_questions := (if length qs > 10 then drop (length qs - 10) qs else qs)\<rparr>)
         else r3)"

text \<open>The key of the ledger entry (line 66).\<close>

definition answer_key :: "string \<Rightarrow> string \<Rightarrow> string" where
  "answer_key chunk_id source_reference =
     (if chunk_id \<noteq> [] then chunk_id else source_reference)"

definition record_quiz_answer ::
  "string \<Rightarrow> string \<Rightarrow> bool \<Rightarrow> string \<Rightarrow> string option \<Rightarrow> string option \<Rightarrow> string \<Rightarrow> string
     \<Rightarrow> world \<Rightarrow> world" where
  "record_quiz_answer chunk_id source_reference is_correct question_text username filename
       now1 now2 w =
     (let state = load_state username w;
          chunk_performance = (case st_chunk_performance state of None \<Rightarrow> [] | Some cp \<Rightarrow> cp);
          key = answer_key chunk_id source_reference;
          r = answer_record (map_of chunk_performance key) source_reference is_correct
                question_text filename now1 now2
      in log_info
           (''Recorded quiz answer for '' @ key @ '': '' @
              (if is_correct then ''correct'' else ''incorrect''))
           (save_state
              (state\<lparr>st_chunk_performance := Some (AList.update key r chunk_performance)\<rparr>)
              username w))"

text \<open>
  The accuracy expression shared by the getters and the aggregator (lines 136, 168 and
  327): \<^verbatim>\<open>(correct / attempts * 100) if attempts > 0 else 0.0\<close>. The division can
  raise \<^verbatim>\<open>OverflowError\<close>.
\<close>

definition accuracy_of :: "int \<Rightarrow> int \<Rightarrow> error + pyfloat" where
  "accuracy_of correct attempts =
     (if attempts > 0 then
        (case py_truediv correct attempts of
           Inl e \<Rightarrow> Inl e
         | Inr q \<Rightarrow> Inr (py_times_100 q))
      else Inr (Finite False 0))"

text \<open>
  \<^verbatim>\<open>get_chunk_performance\<close>: the dictionary returned, or the exception raised by
  line 136. The first result has no \<^verbatim>\<open>last_attempt\<close> key, and an entry that is not
  in the ledger reads as the empty dictionary, whose fields are the defaults of
  \<^verbatim>\<open>.get\<close>.
\<close>

definition get_chunk_performance ::
  "string \<Rightarrow> string option \<Rightarrow> world \<Rightarrow> error + metrics" where
  "get_chunk_performance chunk_id username w =
     (let state = load_state username w
      in case st_chunk_performance state of
           None \<Rightarrow>
             Inr \<lparr>m_correct = 0, m_incorrect = 0, m_attempts = 0, m_accuracy = Finite False 0,
                  m_source_reference = [], m_filename = None, m_last_attempt = None\<rparr>
         | Some chunk_performance \<Rightarrow>
             (let perf = map_of chunk_performance chunk_id;
                  attempts = (case perf of None \<Rightarrow> 0 | Some r \<Rightarrow> cr_attempts r);
                  correct = (case perf of None \<Rightarrow> 0 | Some r \<Rightarrow> cr_correct r)
              in case accuracy_of correct attempts of
                   Inl e \<Rightarrow> Inl e
                 | Inr accuracy \<Rightarrow>
                     Inr \<lparr>m_correct = correct,
                          m_incorrect = (case perf of None \<Rightarrow> 0 | Some r \<Rightarrow> cr_incorrect r),
                          m_attempts = attempts,
                          m_accuracy = accuracy,
                          m_source_reference =
                            (case perf of None \<Rightarrow> [] | Some r \<Rightarrow> cr_source_reference r),
                          m_filename = None,
                          m_last_attempt =
                            (case perf of None \<Rightarrow> None | Some r \<Rightarrow> cr_last_attempt r)\<rparr>))"

text \<open>
  \<^verbatim>\<open>get_all_chunk_performance\<close>: one round of its loop, and the loop, which ends at
  the first exception.
\<close>

definition metrics_of :: "chunk_record \<Rightarrow> error + metrics" where
  "metrics_of perf =
     (case accuracy_of (cr_correct perf) (cr_attempts perf) of
        Inl e \<Rightarrow> Inl e
      | Inr accuracy \<Rightarrow>
          Inr \<lparr>m_correct = cr_correct perf, m_incorrect = cr_incorrect perf,
               m_attempts = cr_attempts perf, m_accuracy = accuracy,
               m_source_reference = cr_source_reference perf, m_filename = cr_filename perf,
               m_last_attempt = cr_last_attempt perf\<rparr>)"

fun all_metrics :: "(string, chunk_record) dict \<Rightarrow> error + (string, metrics) dict" where
  "all_metrics [] = Inr []"
| "all_metrics ((chunk_id, perf) # rest) =
     (case metrics_of perf of
        Inl e \<Rightarrow> Inl e
      | Inr m \<Rightarrow>
          (case all_metrics rest of
             Inl e \<Rightarrow> Inl e
           | Inr result \<Rightarrow> Inr ((chunk_id, m) # result)))"

definition get_all_chunk_performance ::
  "string option \<Rightarrow> world \<Rightarrow> error + (string, metrics) dict" where
  "get_all_chunk_performance username w =
     (case st_chunk_performance (load_state username w) of
        None \<Rightarrow> Inr []
      | Some chunk_performance \<Rightarrow> all_metrics chunk_performance)"

subsection \<open>Strings\<close>

text \<open>
  \<open>before_first sep s\<close> is the text of \<open>s\<close> before the leftmost occurrence of
  \<open>sep\<close>, and \<^const>\<open>None\<close> when \<open>sep\<close> does not occur. So \<^verbatim>\<open>sep in s\<close> is
  \<open>str_in sep s\<close>, and \<^verbatim>\<open>s.split(sep)[0]\<close> is \<open>split_head sep s\<close>.
\<close>

fun before_first :: "string \<Rightarrow> string \<Rightarrow> string option" where
  "before_first sep [] = (if sep = [] then Some [] else None)"
| "before_first sep (c # cs) =
     (if prefix sep (c # cs) then Some [] else map_option ((#) c) (before_first sep cs))"

definition str_in :: "string \<Rightarrow> string \<Rightarrow> bool" where
  "str_in sep s = (before_first sep s \<noteq> None)"

definition split_head :: "string \<Rightarrow> string \<Rightarrow> string" where
  "split_head sep s = (case before_first sep s of None \<Rightarrow> s | Some p \<Rightarrow> p)"

text \<open>\<^verbatim>\<open>s.replace(" ", "_")\<close>\<close>

definition replace_spaces :: "string \<Rightarrow> string" where
  "replace_spaces s = map (\<lambda>c. if c = CHR '' '' then CHR ''_'' else c) s"

text \<open>
  \<^verbatim>\<open>s.lower()\<close>, for the code points below 256: the letters A to Z, and the upper-case
  letters of Latin-1 (192 to 222 without the multiplication sign 215), move up by 32.
\<close>

definition lower_char :: "char \<Rightarrow> char" where
  "lower_char c =
     (let n = (of_char c :: nat)
      in if (65 \<le> n \<and> n \<le> 90) \<or> (192 \<le> n \<and> n \<le> 222 \<and> n \<noteq> 215)
         then char_of (n + 32) else c)"

definition lower :: "string \<Rightarrow> string" where
  "lower s = map lower_char s"

text \<open>
  The character classes \<^verbatim>\<open>\d\<close> and \<^verbatim>\<open>\s\<close> of \<^verbatim>\<open>re\<close> on a \<^verbatim>\<open>str\<close>
  pattern, for the code points below 256.
\<close>

definition is_digit :: "char \<Rightarrow> bool" where
  "is_digit c = (c \<in> set ''0123456789'')"

definition is_space :: "char \<Rightarrow> bool" where
  "is_space c = ((of_char c :: nat) \<in> {9, 10, 11, 12, 13, 28, 29, 30, 31, 32, 133, 160})"

subsection \<open>Reference parser\<close>

text \<open>
  A match of \<^verbatim>\<open>[Cc]hunk\s*(\d+)\<close> that starts at the head of \<open>s\<close>: its group 1.
  Both repetitions are greedy, and neither can give a character back to what follows it
  (a digit is no white space; the pattern ends after the digits).
\<close>

definition match_chunk_here :: "string \<Rightarrow> string option" where
  "match_chunk_here s =
     (case s of
        [] \<Rightarrow> None
      | c # t \<Rightarrow>
          if (c = CHR ''C'' \<or> c = CHR ''c'') \<and> prefix ''hunk'' t then
            (let ds = takeWhile is_digit (dropWhile is_space (drop 4 t))
             in if ds \<noteq> [] then Some ds else None)
          else None)"

text \<open>\<^verbatim>\<open>re.search(r'[Cc]hunk\s*(\d+)', s)\<close>: group 1 of the leftmost match.\<close>

fun search_chunk :: "string \<Rightarrow> string option" where
  "search_chunk [] = None"
| "search_chunk (c # cs) =
     (case match_chunk_here (c # cs) of
        Some ds \<Rightarrow> Some ds
      | None \<Rightarrow> search_chunk cs)"

text \<open>The local variable \<^verbatim>\<open>chunk_num\<close> of \<^verbatim>\<open>extract_chunk_id_from_reference\<close>.\<close>

definition chunk_num_of :: "string \<Rightarrow> string" where
  "chunk_num_of source_reference =
     (case search_chunk source_reference of Some ds \<Rightarrow> ds | None \<Rightarrow> ''unknown'')"

definition extract_chunk_id_from_reference ::
  "(string \<Rightarrow> 128 word) \<Rightarrow> string \<Rightarrow> string option \<Rightarrow> string" where
  "extract_chunk_id_from_reference md5 source_reference filename =
     (let chunk_num = chunk_num_of source_reference
      in case filename of
           Some fname \<Rightarrow>
             if fname \<noteq> [] then file_hash_of md5 fname @ ''_chunk_'' @ chunk_num
             else lower (replace_spaces (take 50 source_reference))
         | None \<Rightarrow> lower (replace_spaces (take 50 source_reference)))"

text \<open>
  \<^verbatim>\<open>re.sub(pattern, '', s)\<close> for a pattern given by its matcher \<open>m\<close>: \<open>m t\<close> is what
  follows the match that starts at the head of \<open>t\<close>. Matches are taken from left to
  right and deleted; where none starts, the character is kept. A match of the patterns
  below is never empty; an empty one would delete nothing.
\<close>

function re_sub_delete :: "(string \<Rightarrow> string option) \<Rightarrow> string \<Rightarrow> string" where
  "re_sub_delete m s =
     (case m s of
        Some rest \<Rightarrow>
          if length rest < length s then re_sub_delete m rest
          else (case s of [] \<Rightarrow> [] | c # cs \<Rightarrow> c # re_sub_delete m cs)
      | None \<Rightarrow> (case s of [] \<Rightarrow> [] | c # cs \<Rightarrow> c # re_sub_delete m cs))"
  by pat_completeness auto
termination
  by (relation "measure (\<lambda>(m, s). length s)") auto

text \<open>A literal at the head of \<open>s\<close>: what follows it.\<close>

definition lit :: "string \<Rightarrow> string \<Rightarrow> string option" where
  "lit p s = (if prefix p s then Some (drop (length p) s) else None)"

text \<open>
  \<^verbatim>\<open>[Ee]XACT\s+quote\s*:\<close> at the head of \<open>s\<close>. After the greedy \<^verbatim>\<open>\s+\<close> and
  \<^verbatim>\<open>\s*\<close> come a \<^verbatim>\<open>q\<close> and a colon, which are no white space, so giving back a
  character never helps.
\<close>

definition match_exact_quote :: "string \<Rightarrow> string option" where
  "match_exact_quote s =
     (case s of
        [] \<Rightarrow> None
      | c # t \<Rightarrow>
          if c = CHR ''E'' \<or> c = CHR ''e'' then
            (case lit ''XACT'' t of
               None \<Rightarrow> None
             | Some u \<Rightarrow>
                 if takeWhile is_space u = [] then None
                 else (case lit ''quote'' (dropWhile is_space u) of
                         None \<Rightarrow> None
                       | Some v \<Rightarrow> lit '':'' (dropWhile is_space v)))
          else None)"

text \<open>\<^verbatim>\<open>quote\s*:\<close> at the head of \<open>s\<close>.\<close>

definition match_quote :: "string \<Rightarrow> string option" where
  "match_quote s =
     (case lit ''quote'' s of
        None \<Rightarrow> None
      | Some v \<Rightarrow> lit '':'' (dropWhile is_space v))"

text \<open>
  Lines 487 to 495 of \<^verbatim>\<open>format_topic_name\<close>: the working text after the two
  substitutions that remove the quote markers, \<^const>\<open>None\<close> when the function has
  returned \<^verbatim>\<open>"Unknown Topic"\<close> before them.
\<close>

definition strip_quote_markers :: "string \<Rightarrow> string" where
  "strip_quote_markers s = re_sub_delete match_quote (re_sub_delete match_exact_quote s)"

definition format_topic_name_markers :: "string \<Rightarrow> string option" where
  "format_topic_name_markers source_reference =
     (if source_reference = [] then None else Some (strip_quote_markers source_reference))"


subsection \<open>Backfill of the file registry\<close>

text \<open>
  One round of the loop of \<^verbatim>\<open>backfill_file_mapping_from_chunks\<close>, on the file
  mapping, the flag \<^verbatim>\<open>updated\<close> and the world (for the logger).
\<close>

definition backfill_step ::
  "string \<times> chunk_record \<Rightarrow> (string, string) dict \<times> bool \<times> world
     \<Rightarrow> (string, string) dict \<times> bool \<times> world" where
  "backfill_step entry acc =
     (case entry of (chunk_id, perf) \<Rightarrow>
      case acc of (file_mapping, updated, w) \<Rightarrow>
        (case cr_filename perf of
           None \<Rightarrow> acc
         | Some filename \<Rightarrow>
             if filename \<noteq> [] \<and> filename \<noteq> ''unknown_file'' then
               if str_in ''_chunk_'' chunk_id then
                 (let file_hash = split_head ''_chunk_'' chunk_id
                  in if \<not> has_key file_hash file_mapping then
                       (AList.update file_hash filename file_mapping, True,
                        log_info (''Backfilled file mapping: '' @ filename @ '' -> '' @ file_hash) w)
                     else acc)
               else acc
             else acc))"

definition backfill_file_mapping_from_chunks :: "string option \<Rightarrow> world \<Rightarrow> world" where
  "backfill_file_mapping_from_chunks username w =
     (let state = load_state username w
      in case st_chunk_performance state of
           None \<Rightarrow> w
         | Some chunk_performance \<Rightarrow>
             if chunk_performance = [] then w
             else
               (let file_mapping0 = (case st_file_mapping state of None \<Rightarrow> [] | Some fm \<Rightarrow> fm)
                in case fold backfill_step chunk_performance (file_mapping0, False, w) of
                     (file_mapping, updated, w') \<Rightarrow>
                       if updated
                       then save_state (state\<lparr>st_file_mapping := Some file_mapping\<rparr>) username w'
                       else w'))"

subsection \<open>File aggregator\<close>

text \<open>
  A value of the dictionary \<^verbatim>\<open>files\<close> while the first loop of
  \<^verbatim>\<open>group_chunks_by_file\<close> runs, and, with the two keys that the second loop adds,
  a value of the result.
\<close>

record rollup_acc =
  r_file_hash :: string
  r_filename :: "string option"
  r_chunks :: "(string, metrics) dict"
  r_total_attempts :: int
  r_total_correct :: int
  r_total_incorrect :: int
  r_chunks_with_data :: int

record rollup = rollup_acc +
  r_accuracy :: pyfloat
  r_last_attempt :: "string option"

text \<open>Lines 265 to 271: the file hash a chunk key is grouped under.\<close>

definition bucket_of :: "string \<Rightarrow> string" where
  "bucket_of chunk_id =
     (if str_in ''_chunk_'' chunk_id then split_head ''_chunk_'' chunk_id else ''unknown'')"

text \<open>
  \<^verbatim>\<open>state.file_mapping.get(file_hash)\<close> behind the test
  \<^verbatim>\<open>hasattr(state, 'file_mapping') and state.file_mapping\<close>: \<^const>\<open>None\<close> when the
  mapping is missing or empty (the test fails), else the lookup.
\<close>

definition mapping_lookup :: "state \<Rightarrow> string \<Rightarrow> string option option" where
  "mapping_lookup st file_hash =
     (case st_file_mapping st of
        None \<Rightarrow> None
      | Some fm \<Rightarrow> if fm = [] then None else Some (map_of fm file_hash))"

text \<open>Lines 273 to 291: the rollup created at the first chunk of a file hash.\<close>

definition new_rollup :: "string \<Rightarrow> metrics \<Rightarrow> string option \<Rightarrow> world \<Rightarrow> rollup_acc" where
  "new_rollup file_hash perf username w =
     (let filename0 = m_filename perf;
          filename =
            (if \<not> truthy filename0 \<or> filename0 = Some ''unknown_file'' then
               (case mapping_lookup (load_state username w) file_hash of
                  None \<Rightarrow> filename0
                | Some found \<Rightarrow> found)
             else filename0)
      in \<lparr>r_file_hash = file_hash, r_filename = filename, r_chunks = [],
          r_total_attempts = 0, r_total_correct = 0, r_total_incorrect = 0,
          r_chunks_with_data = 0\<rparr>)"

text \<open>
  Lines 293 to 311: the two \<^verbatim>\<open>elif\<close> branches, for a file hash that has its rollup
  \<open>f\<close> already.
\<close>

definition refresh_rollup ::
  "string \<Rightarrow> metrics \<Rightarrow> string option \<Rightarrow> rollup_acc \<Rightarrow> world \<Rightarrow> rollup_acc \<times> world" where
  "refresh_rollup file_hash perf username f w =
     (if truthy (m_filename perf) \<and> \<not> truthy (r_filename f) then
        (case m_filename perf of
           None \<Rightarrow> (f, w)
         | Some filename \<Rightarrow>
             (f\<lparr>r_filename := Some filename\<rparr>,
              if filename \<noteq> [] \<and> filename \<noteq> ''unknown_file'' then
                (let state = load_state username w;
                     file_mapping = (case st_file_mapping state of None \<Rightarrow> [] | Some fm \<Rightarrow> fm)
                 in if \<not> has_key file_hash file_mapping then
                      log_info
                        (''Auto-registered file from chunk data: '' @ filename @ '' -> '' @ file_hash)
                        (save_state
                           (state\<lparr>st_file_mapping :=
                              Some (AList.update file_hash filename file_mapping)\<rparr>)
                           username w)
                    else w)
              else w))
      else if \<not> truthy (r_filename f) \<or> r_filename f = Some ''unknown_file'' then
        (case mapping_lookup (load_state username w) file_hash of
           Some (Some mapped_filename) \<Rightarrow>
             if mapped_filename \<noteq> [] then (f\<lparr>r_filename := Some mapped_filename\<rparr>, w) else (f, w)
         | _ \<Rightarrow> (f, w))
      else (f, w))"

text \<open>Lines 314 to 321: the chunk goes into the rollup and into its totals.\<close>

definition add_chunk :: "string \<Rightarrow> metrics \<Rightarrow> rollup_acc \<Rightarrow> rollup_acc" where
  "add_chunk chunk_id perf f =
     f\<lparr>r_chunks := AList.update chunk_id perf (r_chunks f),
       r_total_attempts := r_total_attempts f + m_attempts perf,
       r_total_correct := r_total_correct f + m_correct perf,
       r_total_incorrect := r_total_incorrect f + m_incorrect perf,
       r_chunks_with_data :=
         (if m_attempts perf > 0 then r_chunks_with_data f + 1 else r_chunks_with_data f)\<rparr>"

text \<open>One round of the first loop (lines 263 to 321).\<close>

definition group_step ::
  "string option \<Rightarrow> string \<times> metrics \<Rightarrow> (string, rollup_acc) dict \<times> world
     \<Rightarrow> (string, rollup_acc) dict \<times> world" where
  "group_step username entry acc =
     (case entry of (chunk_id, perf) \<Rightarrow>
      case acc of (files, w) \<Rightarrow>
        (let file_hash = bucket_of chunk_id
         in case map_of files file_hash of
              None \<Rightarrow>
                (AList.update file_hash
                   (add_chunk chunk_id perf (new_rollup file_hash perf username w)) files,
                 w)
            | Some f \<Rightarrow>
                (case refresh_rollup file_hash perf username f w of
                   (f', w') \<Rightarrow> (AList.update file_hash (add_chunk chunk_id perf f') files, w'))))"

text \<open>
  Lines 259 to 321: the backfill and the first loop, giving the dictionary \<^verbatim>\<open>files\<close>
  and the world after them.
\<close>

definition group_rollups ::
  "(string, metrics) dict \<Rightarrow> string option \<Rightarrow> world \<Rightarrow> (string, rollup_acc) dict \<times> world" where
  "group_rollups all_perf username w =
     fold (group_step username) all_perf ([], backfill_file_mapping_from_chunks username w)"

text \<open>
  One round of the second loop (lines 324 to 334): the accuracy of the file, whose
  division can raise, and the greatest \<^verbatim>\<open>last_attempt\<close> of its chunks, strings being
  compared character by character.
\<close>

definition finish_rollup :: "rollup_acc \<Rightarrow> error + rollup" where
  "finish_rollup f =
     (case accuracy_of (r_total_correct f) (r_total_attempts f) of
        Inl e \<Rightarrow> Inl e
      | Inr accuracy \<Rightarrow>
          (let last_attempts =
                 concat (map (\<lambda>(chunk_id, p).
                   case m_last_attempt p of None \<Rightarrow> [] | Some l \<Rightarrow> if l \<noteq> [] then [l] else [])
                   (r_chunks f))
           in Inr \<lparr>r_file_hash = r_file_hash f, r_filename = r_filename f,
                   r_chunks = r_chunks f, r_total_attempts = r_total_attempts f,
                   r_total_correct = r_total_correct f,
                   r_total_incorrect = r_total_incorrect f,
                   r_chunks_with_data = r_chunks_with_data f,
                   r_accuracy = accuracy,
                   r_last_attempt =
                     (case last_attempts of [] \<Rightarrow> None | l # ls \<Rightarrow> Some (fold max ls l))\<rparr>))"

text \<open>The second loop, which ends at the first exception.\<close>

fun finish_rollups :: "(string, rollup_acc) dict \<Rightarrow> error + (string, rollup) dict" where
  "finish_rollups [] = Inr []"
| "finish_rollups ((file_hash, file_data) # rest) =
     (case finish_rollup file_data of
        Inl e \<Rightarrow> Inl e
      | Inr r \<Rightarrow>
          (case finish_rollups rest of
             Inl e \<Rightarrow> Inl e
           | Inr files \<Rightarrow> Inr ((file_hash, r) # files)))"

text \<open>
  \<^verbatim>\<open>group_chunks_by_file\<close>: the dictionary returned or the exception raised, and the
  world after the call, which has the effects of the first loop in both cases.
\<close>

definition group_chunks_by_file ::
  "(string, metrics) dict \<Rightarrow> string option \<Rightarrow> world
     \<Rightarrow> (error + (string, rollup) dict) \<times> world" where
  "group_chunks_by_file all_perf username w =
     (case group_rollups all_perf username w of
        (files, w') \<Rightarrow> (finish_rollups files, w'))"

subsection \<open>Sequences of recorded answers\<close>

text \<open>The arguments of one call of \<^verbatim>\<open>record_quiz_answer\<close>, with its two clock readings.\<close>

record answer_call =
  ac_chunk_id :: string
  ac_source_reference :: string
  ac_is_correct :: bool
  ac_question_text :: string
  ac_username :: "string option"
  ac_filename :: "string option"
  ac_now1 :: string
  ac_now2 :: string

definition do_call :: "answer_call \<Rightarrow> world \<Rightarrow> world" where
  "do_call c w =
     record_quiz_answer (ac_chunk_id c) (ac_source_reference c) (ac_is_correct c)
       (ac_question_text c) (ac_username c) (ac_filename c) (ac_now1 c) (ac_now2 c) w"

definition run_calls :: "answer_call list \<Rightarrow> world \<Rightarrow> world" where
  "run_calls cs w = fold do_call cs w"

text \<open>The ledger entry of a key in the snapshot of a user.\<close>

definition ledger_entry :: "world \<Rightarrow> string option \<Rightarrow> string \<Rightarrow> chunk_record option" where
  "ledger_entry w username key =
     (case st_chunk_performance (store w username) of
        None \<Rightarrow> None
      | Some chunk_performance \<Rightarrow> map_of chunk_performance key)"

text \<open>Whether a call is one for the given user and key.\<close>

definition call_for :: "string option \<Rightarrow> string \<Rightarrow> answer_call \<Rightarrow> bool" where
  "call_for username key c =
     (ac_username c = username \<and> answer_key (ac_chunk_id c) (ac_source_reference c) = key)"

text \<open>The entry that a call with a question text appends to \<^verbatim>\<open>questions\<close>.\<close>

definition question_of :: "answer_call \<Rightarrow> question_entry" where
  "question_of c =
     \<lparr>q_question = take 200 (ac_question_text c), q_correct = ac_is_correct c,
      q_timestamp = ac_now2 c\<rparr>"


subsection \<open>Notions used in the proofs\<close>

text \<open>The rollup that one round of the first loop stores under the file hash of its chunk.\<close>

definition stepped_rollup ::
  "string option \<Rightarrow> string \<Rightarrow> metrics \<Rightarrow> (string, rollup_acc) dict \<Rightarrow> world \<Rightarrow> rollup_acc" where
  "stepped_rollup u k p files w =
     add_chunk k p
       (case map_of files (bucket_of k) of
          None \<Rightarrow> new_rollup (bucket_of k) p u w
        | Some f \<Rightarrow> fst (refresh_rollup (bucket_of k) p u f w))"

text \<open>
  The invariant of the first loop: \<open>files\<close> is what the loop has built from the
  entries \<open>ps\<close>.
\<close>

definition grouped :: "(string, metrics) dict \<Rightarrow> (string, rollup_acc) dict \<Rightarrow> bool" where
  "grouped ps files \<longleftrightarrow>
     distinct (map fst files) \<and>
     sum_list (map (\<lambda>e. r_total_attempts (snd e)) files) = sum_list (map (\<lambda>e. m_attempts (snd e)) ps) \<and>
     sum_list (map (\<lambda>e. r_total_correct (snd e)) files) = sum_list (map (\<lambda>e. m_correct (snd e)) ps) \<and>
     sum_list (map (\<lambda>e. r_total_incorrect (snd e)) files) = sum_list (map (\<lambda>e. m_incorrect (snd e)) ps) \<and>
     (\<forall>fh. case map_of files fh of
             None \<Rightarrow> (\<forall>e \<in> set ps. bucket_of (fst e) \<noteq> fh)
           | Some f \<Rightarrow> fst ` set (r_chunks f) = {k \<in> fst ` set ps. bucket_of k = fh} \<and>
                       (\<exists>e \<in> set ps. bucket_of (fst e) = fh))"

subsection \<open>Example data\<close>

text \<open>A fresh installation: no user has a file mapping or a ledger, nothing was saved or logged.\<close>

definition empty_state :: state where
  "empty_state = \<lparr>st_file_mapping = None, st_chunk_performance = None\<rparr>"

definition empty_world :: world where
  "empty_world = \<lparr>store = (\<lambda>username. empty_state), saves = [], events = []\<rparr>"

definition example_call :: "string \<Rightarrow> bool \<Rightarrow> string \<Rightarrow> answer_call" where
  "example_call chunk_id is_correct question_text =
     \<lparr>ac_chunk_id = chunk_id, ac_source_reference = ''Chunk 1 - Introduction'',
      ac_is_correct = is_correct, ac_question_text = question_text, ac_username = None,
      ac_filename = Some ''doc.pdf'', ac_now1 = ''2024-01-01T10:00:00'',
      ac_now2 = ''2024-01-01T10:00:01''\<rparr>"



definition example_texts :: "string list" where
  "example_texts =
     [''q01'', ''q02'', ''q03'', ''q04'', ''q05'', ''q06'', ''q07'', ''q08'', ''q09'', ''q10'',
      ''q11'', replicate 250 CHR ''x'']"


text \<open>
  A digest function for the examples, which sends every file name to the same 128 bits,
  and the world after one registration with it in a fresh installation.
\<close>

definition example_md5 :: "string \<Rightarrow> 128 word" where
  "example_md5 filename = 0x0123abcd4567ef890123abcd4567ef89"

definition registered_state :: state where
  "registered_state =
     \<lparr>st_file_mapping = Some [(''0123abcd'', ''doc.pdf'')], st_chunk_performance = None\<rparr>"

definition registered_world :: world where
  "registered_world =
     \<lparr>store = (\<lambda>username. empty_state)(None := registered_state),
      saves = [(None, registered_state)],
      events = [''Registered file: doc.pdf -> 0123abcd'']\<rparr>"


text \<open>
  Metrics of three chunks, as \<^verbatim>\<open>get_all_chunk_performance\<close> gives them (accuracies
  75.0, 50.0 and 0.0): two chunks of one file, and one with a key of the old kind.
\<close>

definition example_metrics :: "int \<Rightarrow> int \<Rightarrow> pyfloat \<Rightarrow> string option \<Rightarrow> metrics" where
  "example_metrics correct incorrect accuracy filename =
     \<lparr>m_correct = correct, m_incorrect = incorrect, m_attempts = correct + incorrect,
      m_accuracy = accuracy,
      m_source_reference = ''Chunk 1 - Introduction'', m_filename = filename,
      m_last_attempt = Some ''2024-01-01T10:00:00''\<rparr>"

definition example_perf :: "(string, metrics) dict" where
  "example_perf =
     [(''ab12cd34_chunk_1'', example_metrics 3 1 (Finite False 75) (Some ''doc.pdf'')),
      (''ab12cd34_chunk_2'', example_metrics 1 1 (Finite False 50) None),
      (''introduction_to_aws'', example_metrics 0 1 (Finite False 0) None)]"


subsection \<open>What the patterns describe\<close>

text \<open>
  The text \<open>t\<close> begins with the token \<^verbatim>\<open>Chunk\<close> or \<^verbatim>\<open>chunk\<close>, white space or
  none, and the integer written \<open>ds\<close>, all of its digits.
\<close>

definition chunk_token_at :: "string \<Rightarrow> string \<Rightarrow> bool" where
  "chunk_token_at t ds \<longleftrightarrow>
     (\<exists>c ws rest.
        t = c # ''hunk'' @ ws @ ds @ rest \<and> (c = CHR ''C'' \<or> c = CHR ''c'') \<and>
        (\<forall>x \<in> set ws. is_space x) \<and> ds \<noteq> [] \<and> (\<forall>x \<in> set ds. is_digit x) \<and>
        (rest = [] \<or> \<not> is_digit (hd rest)))"


subsection \<open>Example data for the placeholder file name\<close>

text \<open>
  A ledger whose only entry was recorded with the placeholder \<^verbatim>\<open>"unknown_file"\<close> as
  its file name, and the world after a second answer for the same chunk, recorded with the
  real file name.
\<close>

definition placeholder_world :: world where
  "placeholder_world =
     record_quiz_answer ''ab12cd34_chunk_1'' ''Chunk 1 - Introduction'' True [] None
       (Some ''unknown_file'') ''2024-01-01T10:00:00'' ''2024-01-01T10:00:01'' empty_world"

definition renamed_world :: world where
  "renamed_world =
     record_quiz_answer ''ab12cd34_chunk_1'' ''Chunk 1 - Introduction'' True [] None
       (Some ''doc.pdf'') ''2024-01-02T10:00:00'' ''2024-01-02T10:00:01'' placeholder_world"

text \<open>
  Metrics of two chunks of one file: the second with the placeholder as its file name, and
  the first with the placeholder and the second with the real file name.
\<close>

definition placeholder_perf :: "(string, metrics) dict" where
  "placeholder_perf =
     [(''ab12cd34_chunk_1'', example_metrics 1 0 (Finite False 100) None),
      (''ab12cd34_chunk_2'', example_metrics 0 1 (Finite False 0) (Some ''unknown_file''))]"

definition mixed_perf :: "(string, metrics) dict" where
  "mixed_perf =
     [(''ab12cd34_chunk_1'', example_metrics 1 0 (Finite False 100) (Some ''unknown_file'')),
      (''ab12cd34_chunk_2'', example_metrics 0 1 (Finite False 0) (Some ''doc.pdf''))]"

text \<open>The metrics of one chunk, with the placeholder as its file name.\<close>

definition sentinel_perf :: "(string, metrics) dict" where
  "sentinel_perf =
     [(''ab12cd34_chunk_1'', example_metrics 1 0 (Finite False 100) (Some ''unknown_file''))]"

text \<open>A world whose file mapping has one entry, of another file.\<close>

definition unrelated_world :: world where
  "unrelated_world =
     \<lparr>store = (\<lambda>username.
         \<lparr>st_file_mapping = Some [(''ffff0000'', ''other.pdf'')],
          st_chunk_performance = None\<rparr>),
      saves = [], events = []\<rparr>"

text \<open>A ledger entry with 7 correct answers in 25 attempts.\<close>

definition quarter_entry :: chunk_record where
  "quarter_entry =
     \<lparr>cr_correct = 7, cr_incorrect = 18, cr_attempts = 25,
      cr_last_attempt = Some ''2024-01-01T10:00:00'',
      cr_source_reference = ''Chunk 1 - Introduction'', cr_filename = Some ''doc.pdf'',
      cr_questions = []\<rparr>"

definition quarter_world :: world where
  "quarter_world =
     \<lparr>store = (\<lambda>username.
         \<lparr>st_file_mapping = None,
          st_chunk_performance = Some [(''ab12cd34_chunk_1'', quarter_entry)]\<rparr>),
      saves = [], events = []\<rparr>"



section \<open>The chunk performance ledger\<close>

subsection \<open>What one call does to the ledger\<close>

lemma ledger_entry_record_quiz_answer:
  "ledger_entry (record_quiz_answer chunk_id source_reference is_correct question_text username
       filename now1 now2 w) u k =
     (if u = username \<and> k = answer_key chunk_id source_reference
      then Some (answer_record (ledger_entry w u k) source_reference is_correct question_text
                   filename now1 now2)
      else ledger_entry w u k)"
  by (simp add: record_quiz_answer_def ledger_entry_def load_state_def save_state_def
      log_info_def Let_def update_conv' split: option.splits)

lemma ledger_entry_do_call:
  "ledger_entry (do_call c w) u k =
     (if call_for u k c
      then Some (answer_record (ledger_entry w u k) (ac_source_reference c) (ac_is_correct c)
                   (ac_question_text c) (ac_filename c) (ac_now1 c) (ac_now2 c))
      else ledger_entry w u k)"
  by (auto simp add: do_call_def call_for_def ledger_entry_record_quiz_answer)

lemma run_calls_snoc: "run_calls (cs @ [c]) w = do_call c (run_calls cs w)"
  by (simp add: run_calls_def)

lemma answer_record_counts:
  "cr_attempts (answer_record old sr ic qt fn n1 n2) =
     (case old of None \<Rightarrow> 0 | Some r \<Rightarrow> cr_attempts r) + 1"
  "cr_correct (answer_record old sr ic qt fn n1 n2) =
     (case old of None \<Rightarrow> 0 | Some r \<Rightarrow> cr_correct r) + (if ic then 1 else 0)"
  "cr_incorrect (answer_record old sr ic qt fn n1 n2) =
     (case old of None \<Rightarrow> 0 | Some r \<Rightarrow> cr_incorrect r) + (if ic then 0 else 1)"
  by (simp_all add: answer_record_def Let_def split: option.splits)

lemma answer_record_questions:
  "cr_questions (answer_record old sr ic qt fn n1 n2) =
     (let qs0 = (case old of None \<Rightarrow> [] | Some r \<Rightarrow> cr_questions r)
      in if qt \<noteq> [] then
           (let qs = qs0 @ [\<lparr>q_question = take 200 qt, q_correct = ic, q_timestamp = n2\<rparr>]
            in drop (length qs - 10) qs)
         else qs0)"
  by (simp add: answer_record_def Let_def split: option.splits)

lemma length_filter_split:
  "length (filter (\<lambda>c. P c \<and> Q c) xs) + length (filter (\<lambda>c. P c \<and> \<not> Q c) xs) =
     length (filter P xs)"
  by (induction xs) auto

subsection \<open>Counters after a sequence of calls\<close>

lemma counts_after_calls:
  assumes "ledger_entry w u k = None"
  shows "case ledger_entry (run_calls cs w) u k of
           None \<Rightarrow> filter (call_for u k) cs = []
         | Some r \<Rightarrow>
             filter (call_for u k) cs \<noteq> [] \<and>
             cr_attempts r = int (length (filter (call_for u k) cs)) \<and>
             cr_correct r = int (length (filter (\<lambda>c. call_for u k c \<and> ac_is_correct c) cs)) \<and>
             cr_incorrect r = int (length (filter (\<lambda>c. call_for u k c \<and> \<not> ac_is_correct c) cs))"
proof (induction cs rule: rev_induct)
  case Nil
  then show ?case using assms by (simp add: run_calls_def)
next
  case (snoc c cs)
  then show ?case
    by (auto simp add: run_calls_snoc ledger_entry_do_call answer_record_counts filter_empty_conv
        split: option.splits)
qed

lemma invariant_after_calls:
  assumes "\<forall>u k r. ledger_entry w u k = Some r \<longrightarrow> cr_attempts r = cr_correct r + cr_incorrect r"
  shows "\<forall>u k r. ledger_entry (run_calls cs w) u k = Some r \<longrightarrow>
           cr_attempts r = cr_correct r + cr_incorrect r"
proof (induction cs rule: rev_induct)
  case Nil
  then show ?case using assms by (simp add: run_calls_def)
next
  case (snoc c cs)
  show ?case
  proof (intro allI impI)
    fix u k r
    assume r: "ledger_entry (run_calls (cs @ [c]) w) u k = Some r"
    show "cr_attempts r = cr_correct r + cr_incorrect r"
    proof (cases "call_for u k c")
      case False
      with r snoc show ?thesis by (simp add: run_calls_snoc ledger_entry_do_call)
    next
      case True
      with r have eq: "r = answer_record (ledger_entry (run_calls cs w) u k)
          (ac_source_reference c) (ac_is_correct c) (ac_question_text c) (ac_filename c)
          (ac_now1 c) (ac_now2 c)"
        by (simp add: run_calls_snoc ledger_entry_do_call)
      show ?thesis
      proof (cases "ledger_entry (run_calls cs w) u k")
        case None
        with eq show ?thesis by (simp add: answer_record_counts)
      next
        case (Some r0)
        with snoc have "cr_attempts r0 = cr_correct r0 + cr_incorrect r0" by blast
        with eq Some show ?thesis by (simp add: answer_record_counts)
      qed
    qed
  qed
qed

subsection \<open>Question history after a sequence of calls\<close>

lemma drop_last10_snoc:
  "drop (length (drop (length xs - 10) xs @ [x]) - 10) (drop (length xs - 10) xs @ [x]) =
   drop (length (xs @ [x]) - 10) (xs @ [x])"
proof (cases "length xs \<le> 10")
  case True
  then show ?thesis by simp
next
  case False
  then have "Suc (length xs - 10) = length xs - 9" by arith
  with False show ?thesis by simp
qed

lemma questions_after_calls:
  assumes "ledger_entry w u k = None"
  shows "(case ledger_entry (run_calls cs w) u k of None \<Rightarrow> [] | Some r \<Rightarrow> cr_questions r) =
           drop (length (filter (\<lambda>c. call_for u k c \<and> ac_question_text c \<noteq> []) cs) - 10)
             (map question_of (filter (\<lambda>c. call_for u k c \<and> ac_question_text c \<noteq> []) cs))"
proof (induction cs rule: rev_induct)
  case Nil
  then show ?case using assms by (simp add: run_calls_def)
next
  case (snoc c cs)
  let ?xs = "map question_of (filter (\<lambda>c. call_for u k c \<and> ac_question_text c \<noteq> []) cs)"
  from snoc have IH:
    "(case ledger_entry (run_calls cs w) u k of None \<Rightarrow> [] | Some r \<Rightarrow> cr_questions r) =
       drop (length ?xs - 10) ?xs"
    by simp
  show ?case
  proof (cases "call_for u k c \<and> ac_question_text c \<noteq> []")
    case False
    with IH show ?thesis
      by (auto simp add: run_calls_snoc ledger_entry_do_call answer_record_questions Let_def)
  next
    case True
    then have
      "(case ledger_entry (run_calls (cs @ [c]) w) u k of None \<Rightarrow> [] | Some r \<Rightarrow> cr_questions r) =
         drop (length (drop (length ?xs - 10) ?xs @ [question_of c]) - 10)
           (drop (length ?xs - 10) ?xs @ [question_of c])"
      using IH
      by (simp add: run_calls_snoc ledger_entry_do_call answer_record_questions Let_def
          question_of_def del: drop_append)
    also have "\<dots> = drop (length (?xs @ [question_of c]) - 10) (?xs @ [question_of c])"
      by (rule drop_last10_snoc)
    finally show ?thesis using True by simp
  qed
qed

subsection \<open>Example calls\<close>

lemma example_calls_for:
  "call_for None ''ab12cd34_chunk_1'' (example_call ''ab12cd34_chunk_1'' b q)"
  "\<not> call_for None ''ab12cd34_chunk_1'' (example_call ''ab12cd34_chunk_2'' b q)"
  by (simp_all add: call_for_def example_call_def answer_key_def)

lemma empty_world_entry: "ledger_entry empty_world u k = None"
  by (simp add: ledger_entry_def empty_world_def empty_state_def)

subsection \<open>The claims about the ledger\<close>

text \<open>
  C3. Starting where a key has no entry, after any sequence of calls of
  \<^verbatim>\<open>record_quiz_answer\<close> (of any users and keys), of which \<open>N\<close> were for that user and
  key and \<open>K\<close> of those were correct, the entry of the key is missing if \<open>N = 0\<close>, and
  otherwise has \<open>attempts = N\<close>, \<open>correct = K\<close> and \<open>incorrect = N - K\<close>. And if every
  entry of the ledger satisfies \<open>attempts = correct + incorrect\<close> before the calls, every
  entry does after them.
\<close>

theorem record_quiz_answer_counts:
  "(ledger_entry w u k = None \<longrightarrow>
      (case ledger_entry (run_calls cs w) u k of
         None \<Rightarrow> filter (call_for u k) cs = []
       | Some r \<Rightarrow>
           filter (call_for u k) cs \<noteq> [] \<and>
           cr_attempts r = int (length (filter (call_for u k) cs)) \<and>
           cr_correct r = int (length (filter (\<lambda>c. call_for u k c \<and> ac_is_correct c) cs)) \<and>
           cr_incorrect r =
             int (length (filter (call_for u k) cs)) -
             int (length (filter (\<lambda>c. call_for u k c \<and> ac_is_correct c) cs)))) \<and>
   ((\<forall>u' k' r. ledger_entry w u' k' = Some r \<longrightarrow>
        cr_attempts r = cr_correct r + cr_incorrect r) \<longrightarrow>
    (\<forall>u' k' r. ledger_entry (run_calls cs w) u' k' = Some r \<longrightarrow>
        cr_attempts r = cr_correct r + cr_incorrect r))"
proof (intro conjI impI)
  assume none: "ledger_entry w u k = None"
  have split: "int (length (filter (\<lambda>c. call_for u k c \<and> \<not> ac_is_correct c) cs)) =
      int (length (filter (call_for u k) cs)) -
      int (length (filter (\<lambda>c. call_for u k c \<and> ac_is_correct c) cs))"
    using length_filter_split [of "call_for u k" ac_is_correct cs] by simp
  from counts_after_calls [OF none, of cs] show
    "case ledger_entry (run_calls cs w) u k of
       None \<Rightarrow> filter (call_for u k) cs = []
     | Some r \<Rightarrow>
         filter (call_for u k) cs \<noteq> [] \<and>
         cr_attempts r = int (length (filter (call_for u k) cs)) \<and>
         cr_correct r = int (length (filter (\<lambda>c. call_for u k c \<and> ac_is_correct c) cs)) \<and>
         cr_incorrect r =
           int (length (filter (call_for u k) cs)) -
           int (length (filter (\<lambda>c. call_for u k c \<and> ac_is_correct c) cs))"
    unfolding split by (simp split: option.splits)
next
  assume "\<forall>u' k' r. ledger_entry w u' k' = Some r \<longrightarrow>
            cr_attempts r = cr_correct r + cr_incorrect r"
  then show "\<forall>u' k' r. ledger_entry (run_calls cs w) u' k' = Some r \<longrightarrow>
            cr_attempts r = cr_correct r + cr_incorrect r"
    by (rule invariant_after_calls)
qed

theorem record_quiz_answer_counts_witness:
  "ledger_entry empty_world None ''ab12cd34_chunk_1'' = None \<and>
   (\<exists>r. ledger_entry
          (run_calls
             [example_call ''ab12cd34_chunk_1'' True ''What is a chunk?'',
              example_call ''ab12cd34_chunk_2'' False ''What is a file?'',
              example_call ''ab12cd34_chunk_1'' False [],
              example_call ''ab12cd34_chunk_1'' True ''What is a quiz?'']
             empty_world) None ''ab12cd34_chunk_1'' = Some r \<and>
        cr_attempts r = 3 \<and> cr_correct r = 2 \<and> cr_incorrect r = 1 \<and>
        cr_attempts r = cr_correct r + cr_incorrect r)"
proof -
  let ?cs = "[example_call ''ab12cd34_chunk_1'' True ''What is a chunk?'',
              example_call ''ab12cd34_chunk_2'' False ''What is a file?'',
              example_call ''ab12cd34_chunk_1'' False [],
              example_call ''ab12cd34_chunk_1'' True ''What is a quiz?'']"
  have none: "ledger_entry empty_world None ''ab12cd34_chunk_1'' = None"
    by (rule empty_world_entry)
  have inv: "\<forall>u' k' r. ledger_entry empty_world u' k' = Some r \<longrightarrow>
      cr_attempts r = cr_correct r + cr_incorrect r"
    by (simp add: empty_world_entry)
  have n: "length (filter (call_for None ''ab12cd34_chunk_1'') ?cs) = 3"
    by (simp add: example_calls_for)
  have k: "length (filter (\<lambda>c. call_for None ''ab12cd34_chunk_1'' c \<and> ac_is_correct c) ?cs) = 2"
    by (simp add: example_calls_for) (simp add: example_call_def)
  from record_quiz_answer_counts [of empty_world None "''ab12cd34_chunk_1''" ?cs] none inv
  show ?thesis
    unfolding n k by (auto simp add: example_calls_for split: option.splits)
qed

text \<open>
  C4. Starting where a key has no entry, after any sequence of calls that has a call for
  that user and key, the \<^verbatim>\<open>questions\<close> of the entry are the entries of the last 10 of
  those calls that had a question text, in the order of the calls; their number is the
  smaller of 10 and the number of such calls; every stored question text has at most 200
  characters, being the first 200 of the text of its call.
\<close>

theorem questions_bounded:
  assumes "ledger_entry w u k = None"
    and "filter (call_for u k) cs \<noteq> []"
  shows "\<exists>r. ledger_entry (run_calls cs w) u k = Some r \<and>
           cr_questions r =
             drop (length (filter (\<lambda>c. call_for u k c \<and> ac_question_text c \<noteq> []) cs) - 10)
               (map question_of (filter (\<lambda>c. call_for u k c \<and> ac_question_text c \<noteq> []) cs)) \<and>
           length (cr_questions r) =
             min (length (filter (\<lambda>c. call_for u k c \<and> ac_question_text c \<noteq> []) cs)) 10 \<and>
           (\<forall>q \<in> set (cr_questions r). length (q_question q) \<le> 200)"
proof -
  from counts_after_calls [OF assms(1), of cs] assms(2)
  obtain r where r: "ledger_entry (run_calls cs w) u k = Some r"
    by (cases "ledger_entry (run_calls cs w) u k") auto
  let ?qs = "map question_of (filter (\<lambda>c. call_for u k c \<and> ac_question_text c \<noteq> []) cs)"
  from questions_after_calls [OF assms(1), of cs] r
  have q: "cr_questions r = drop (length ?qs - 10) ?qs" by simp
  have "\<forall>q \<in> set (drop (length ?qs - 10) ?qs). length (q_question q) \<le> 200"
  proof
    fix q assume "q \<in> set (drop (length ?qs - 10) ?qs)"
    then have "q \<in> set ?qs" by (rule in_set_dropD)
    then show "length (q_question q) \<le> 200" by (auto simp add: question_of_def)
  qed
  with q r show ?thesis by auto
qed


lemma example_calls_with_text:
  "filter (\<lambda>c. call_for None ''ab12cd34_chunk_1'' c \<and> ac_question_text c \<noteq> [])
     (map (example_call ''ab12cd34_chunk_1'' b) qs) =
   map (example_call ''ab12cd34_chunk_1'' b) (filter (\<lambda>q. q \<noteq> []) qs)"
  by (induction qs) (simp_all add: example_calls_for, simp_all add: example_call_def)

lemma question_of_example_call:
  "q_question (question_of (example_call k b q)) = take 200 q"
  by (simp add: question_of_def example_call_def)

theorem questions_bounded_witness:
  "ledger_entry empty_world None ''ab12cd34_chunk_1'' = None \<and>
   filter (call_for None ''ab12cd34_chunk_1'')
     (map (example_call ''ab12cd34_chunk_1'' True) example_texts) \<noteq> [] \<and>
   (\<exists>r. ledger_entry
          (run_calls (map (example_call ''ab12cd34_chunk_1'' True) example_texts) empty_world)
          None ''ab12cd34_chunk_1'' = Some r \<and>
        length (cr_questions r) = 10 \<and>
        map q_question (cr_questions r) =
          [''q03'', ''q04'', ''q05'', ''q06'', ''q07'', ''q08'', ''q09'', ''q10'', ''q11'',
           replicate 200 CHR ''x''])"
proof -
  let ?cs = "map (example_call ''ab12cd34_chunk_1'' True) example_texts"
  have none: "ledger_entry empty_world None ''ab12cd34_chunk_1'' = None"
    by (rule empty_world_entry)
  have ne: "filter (call_for None ''ab12cd34_chunk_1'') ?cs \<noteq> []"
    by (simp add: example_texts_def example_calls_for)
  have texts: "filter (\<lambda>q. q \<noteq> []) example_texts = example_texts"
    by (simp add: example_texts_def)
  have len: "length example_texts = 12"
    by (simp add: example_texts_def)
  have last10: "map q_question (drop 2 (map question_of ?cs)) =
      [''q03'', ''q04'', ''q05'', ''q06'', ''q07'', ''q08'', ''q09'', ''q10'', ''q11'',
       replicate 200 CHR ''x'']"
    by (simp add: example_texts_def question_of_example_call)
  from questions_bounded [OF none ne] obtain r where
    r: "ledger_entry (run_calls ?cs empty_world) None ''ab12cd34_chunk_1'' = Some r"
    and q: "cr_questions r =
      drop (length (filter (\<lambda>c. call_for None ''ab12cd34_chunk_1'' c \<and> ac_question_text c \<noteq> [])
              ?cs) - 10)
        (map question_of
          (filter (\<lambda>c. call_for None ''ab12cd34_chunk_1'' c \<and> ac_question_text c \<noteq> []) ?cs))"
    by blast
  from q have "cr_questions r = drop 2 (map question_of ?cs)"
    unfolding example_calls_with_text texts by (simp add: len)
  with last10 have "map q_question (cr_questions r) =
      [''q03'', ''q04'', ''q05'', ''q06'', ''q07'', ''q08'', ''q09'', ''q10'', ''q11'',
       replicate 200 CHR ''x'']"
    by simp
  moreover from this have "length (cr_questions r) = 10"
    using length_map [of q_question "cr_questions r"] by simp
  ultimately show ?thesis using none ne r by simp
qed



text \<open>
  C10. A call of \<^verbatim>\<open>record_quiz_answer\<close> with the empty \<^verbatim>\<open>chunk_id\<close> uses
  \<^verbatim>\<open>source_reference\<close> as the key: after it, the entry of that key of that user is the
  entry the call builds from the one that was there, the message logged names that key, and
  no other key or user has its entry changed.
\<close>

theorem empty_chunk_id_key:
  "ledger_entry
     (record_quiz_answer [] source_reference is_correct question_text username filename
        now1 now2 w) username source_reference =
     Some (answer_record (ledger_entry w username source_reference) source_reference is_correct
             question_text filename now1 now2) \<and>
   (\<forall>u k. (u, k) \<noteq> (username, source_reference) \<longrightarrow>
      ledger_entry
        (record_quiz_answer [] source_reference is_correct question_text username filename
           now1 now2 w) u k = ledger_entry w u k) \<and>
   events
     (record_quiz_answer [] source_reference is_correct question_text username filename
        now1 now2 w) =
     events w @
       [''Recorded quiz answer for '' @ source_reference @ '': '' @
          (if is_correct then ''correct'' else ''incorrect'')]"
  by (auto simp add: ledger_entry_record_quiz_answer answer_key_def)
    (simp_all add: record_quiz_answer_def Let_def log_info_def save_state_def answer_key_def)

theorem empty_chunk_id_key_witness:
  "(\<exists>r. ledger_entry
          (record_quiz_answer [] ''Chunk 1 - Introduction'' True ''What is a chunk?'' None
             (Some ''doc.pdf'') ''2024-01-01T10:00:00'' ''2024-01-01T10:00:01'' empty_world)
          None ''Chunk 1 - Introduction'' = Some r \<and>
        cr_attempts r = 1 \<and> cr_correct r = 1 \<and> cr_incorrect r = 0 \<and>
        cr_source_reference r = ''Chunk 1 - Introduction'') \<and>
   ((None :: string option, []) \<noteq> (None, ''Chunk 1 - Introduction'') \<and>
    ledger_entry
      (record_quiz_answer [] ''Chunk 1 - Introduction'' True ''What is a chunk?'' None
         (Some ''doc.pdf'') ''2024-01-01T10:00:00'' ''2024-01-01T10:00:01'' empty_world)
      None [] = None)"
proof -
  have neq: "(None :: string option, []) \<noteq> (None, ''Chunk 1 - Introduction'')"
    by simp
  have rec: "answer_record None ''Chunk 1 - Introduction'' True ''What is a chunk?''
      (Some ''doc.pdf'') ''2024-01-01T10:00:00'' ''2024-01-01T10:00:01'' =
    \<lparr>cr_correct = 1, cr_incorrect = 0, cr_attempts = 1,
     cr_last_attempt = Some ''2024-01-01T10:00:00'',
     cr_source_reference = ''Chunk 1 - Introduction'', cr_filename = Some ''doc.pdf'',
     cr_questions = [\<lparr>q_question = ''What is a chunk?'', q_correct = True,
                      q_timestamp = ''2024-01-01T10:00:01''\<rparr>]\<rparr>"
    by (simp add: answer_record_def Let_def)
  from empty_chunk_id_key [of "''Chunk 1 - Introduction''" True "''What is a chunk?''" None
      "Some ''doc.pdf''" "''2024-01-01T10:00:00''" "''2024-01-01T10:00:01''" empty_world] neq
  show ?thesis
    unfolding empty_world_entry rec by simp
qed

section \<open>Reading the ledger\<close>

subsection \<open>The accuracy expression\<close>

lemma overflow_threshold_gt_1: "1 < overflow_threshold"
proof -
  have "(2::rat) ^ 970 * 2 \<le> 2 ^ 970 * 2 ^ 54" by (intro mult_left_mono) simp_all
  also have "\<dots> = 2 ^ 1024" by (simp add: power_add [symmetric])
  finally have "(2::rat) ^ 970 + 2 ^ 970 \<le> 2 ^ 1024" by simp
  moreover have "(1::rat) < 2 ^ 970" by (rule one_less_power) simp_all
  ultimately show ?thesis by (simp add: overflow_threshold_def)
qed

lemma py_truediv_fraction:
  assumes "0 \<le> a" and "a \<le> b" and "0 < b"
  shows "py_truediv a b = Inr (Finite False (round_double (of_int a / of_int b)))"
proof -
  from assms have "(of_int a :: rat) \<le> of_int b" and "(0::rat) < of_int b" and "(0::rat) \<le> of_int a"
    by simp_all
  then have le: "(of_int a / of_int b :: rat) \<le> 1" and ge: "(0::rat) \<le> of_int a / of_int b"
    by (simp_all add: divide_le_eq)
  from ge have abs: "\<bar>of_int a / of_int b :: rat\<bar> = of_int a / of_int b" by (rule abs_of_nonneg)
  from le overflow_threshold_gt_1 have "\<not> overflow_threshold \<le> (of_int a / of_int b :: rat)"
    by simp
  with assms abs show ?thesis
    by (simp add: py_truediv_def Let_def del: of_int_le_iff)
qed

lemma accuracy_of_returns:
  assumes "0 \<le> correct" and "correct \<le> attempts"
  shows "\<exists>accuracy. accuracy_of correct attempts = Inr accuracy"
proof (cases "attempts > 0")
  case True
  with assms show ?thesis
    by (simp add: accuracy_of_def py_truediv_fraction)
next
  case False
  then show ?thesis by (simp add: accuracy_of_def)
qed

lemma accuracy_of_error: "accuracy_of correct attempts = Inl e \<Longrightarrow> e = OverflowError"
  by (auto simp add: accuracy_of_def py_truediv_def Let_def split: if_splits sum.splits)

lemma overflow_threshold_gt_100: "100 < overflow_threshold"
proof -
  have "(2::rat) ^ 970 * 2 \<le> 2 ^ 970 * 2 ^ 54" by (intro mult_left_mono) simp_all
  also have "\<dots> = 2 ^ 1024" by (simp add: power_add [symmetric])
  finally have "(2::rat) ^ 970 \<le> 2 ^ 1024 - 2 ^ 970" by simp
  moreover have "(2::rat) ^ 7 \<le> 2 ^ 970" by (rule power_increasing) simp_all
  ultimately show ?thesis by (simp add: overflow_threshold_def)
qed

lemma py_times_100_fraction:
  assumes "m \<le> 1"
  shows "py_times_100 (Finite neg m) = Finite neg (round_double (m * 100))"
proof -
  from assms have "m * 100 \<le> 100" by simp
  with overflow_threshold_gt_100 have "\<not> overflow_threshold \<le> m * 100" by simp
  then show ?thesis by (simp add: py_times_100_def)
qed

lemma example_quotient:
  "py_truediv 7 25 = Inr (Finite False (1261007895663739 / 4503599627370496))"
proof -
  have "round_double (of_int 7 / of_int 25) = 1261007895663739 / 4503599627370496"
    by code_simp
  then show ?thesis by (simp add: py_truediv_fraction)
qed

lemma example_product:
  "py_times_100 (Finite False (1261007895663739 / 4503599627370496)) =
     Finite False (7881299347898369 / 281474976710656)"
proof -
  have "round_double (1261007895663739 / 4503599627370496 * 100) =
      7881299347898369 / 281474976710656"
    by code_simp
  then show ?thesis by (simp add: py_times_100_fraction)
qed

subsection \<open>One chunk\<close>

text \<open>
  C2. \<^verbatim>\<open>get_chunk_performance\<close> returns the counters 0 and the accuracy 0.0 when the
  state has no ledger, and when the ledger has no entry for the key. For an entry, it
  returns the counters of the entry; with \<open>attempts > 0\<close> its accuracy is the float
  \<^verbatim>\<open>correct / attempts * 100\<close>, the rounded quotient times 100 rounded (and where the
  quotient is too large for a float, the \<^verbatim>\<open>OverflowError\<close> of the division is what the
  call raises); with \<open>attempts = 0\<close>, or less, its accuracy is 0.0. For an entry with
  \<open>0 \<le> correct \<le> attempts\<close> the call returns.
\<close>

theorem get_chunk_performance_spec:
  "(st_chunk_performance (load_state username w) = None \<longrightarrow>
      (\<exists>m. get_chunk_performance chunk_id username w = Inr m \<and>
           m_accuracy m = Finite False 0 \<and> m_correct m = 0 \<and> m_incorrect m = 0 \<and>
           m_attempts m = 0)) \<and>
   (\<forall>cp. st_chunk_performance (load_state username w) = Some cp \<and> map_of cp chunk_id = None \<longrightarrow>
      (\<exists>m. get_chunk_performance chunk_id username w = Inr m \<and>
           m_accuracy m = Finite False 0 \<and> m_correct m = 0 \<and> m_incorrect m = 0 \<and>
           m_attempts m = 0)) \<and>
   (\<forall>cp r. st_chunk_performance (load_state username w) = Some cp \<and> map_of cp chunk_id = Some r \<longrightarrow>
      (cr_attempts r > 0 \<longrightarrow>
         (case py_truediv (cr_correct r) (cr_attempts r) of
            Inl e \<Rightarrow> get_chunk_performance chunk_id username w = Inl e
          | Inr q \<Rightarrow>
              (\<exists>m. get_chunk_performance chunk_id username w = Inr m \<and>
                   m_accuracy m = py_times_100 q \<and> m_correct m = cr_correct r \<and>
                   m_incorrect m = cr_incorrect r \<and> m_attempts m = cr_attempts r))) \<and>
      (cr_attempts r \<le> 0 \<longrightarrow>
         (\<exists>m. get_chunk_performance chunk_id username w = Inr m \<and>
              m_accuracy m = Finite False 0 \<and> m_correct m = cr_correct r \<and>
              m_incorrect m = cr_incorrect r \<and> m_attempts m = cr_attempts r)) \<and>
      (0 \<le> cr_correct r \<and> cr_correct r \<le> cr_attempts r \<longrightarrow>
         (\<exists>m. get_chunk_performance chunk_id username w = Inr m)))"
proof (intro conjI allI impI)
  assume "st_chunk_performance (load_state username w) = None"
  then show "\<exists>m. get_chunk_performance chunk_id username w = Inr m \<and>
           m_accuracy m = Finite False 0 \<and> m_correct m = 0 \<and> m_incorrect m = 0 \<and>
           m_attempts m = 0"
    by (simp add: get_chunk_performance_def Let_def)
next
  fix cp
  assume "st_chunk_performance (load_state username w) = Some cp \<and> map_of cp chunk_id = None"
  then show "\<exists>m. get_chunk_performance chunk_id username w = Inr m \<and>
           m_accuracy m = Finite False 0 \<and> m_correct m = 0 \<and> m_incorrect m = 0 \<and>
           m_attempts m = 0"
    by (simp add: get_chunk_performance_def Let_def accuracy_of_def)
next
  fix cp r
  assume e: "st_chunk_performance (load_state username w) = Some cp \<and> map_of cp chunk_id = Some r"
    and pos: "cr_attempts r > 0"
  from e pos show "case py_truediv (cr_correct r) (cr_attempts r) of
            Inl e \<Rightarrow> get_chunk_performance chunk_id username w = Inl e
          | Inr q \<Rightarrow>
              (\<exists>m. get_chunk_performance chunk_id username w = Inr m \<and>
                   m_accuracy m = py_times_100 q \<and> m_correct m = cr_correct r \<and>
                   m_incorrect m = cr_incorrect r \<and> m_attempts m = cr_attempts r)"
    by (simp add: get_chunk_performance_def Let_def accuracy_of_def split: sum.splits)
next
  fix cp r
  assume e: "st_chunk_performance (load_state username w) = Some cp \<and> map_of cp chunk_id = Some r"
    and z: "cr_attempts r \<le> 0"
  from e z show "\<exists>m. get_chunk_performance chunk_id username w = Inr m \<and>
              m_accuracy m = Finite False 0 \<and> m_correct m = cr_correct r \<and>
              m_incorrect m = cr_incorrect r \<and> m_attempts m = cr_attempts r"
    by (simp add: get_chunk_performance_def Let_def accuracy_of_def)
next
  fix cp r
  assume e: "st_chunk_performance (load_state username w) = Some cp \<and> map_of cp chunk_id = Some r"
    and inv: "0 \<le> cr_correct r \<and> cr_correct r \<le> cr_attempts r"
  from inv obtain accuracy where "accuracy_of (cr_correct r) (cr_attempts r) = Inr accuracy"
    using accuracy_of_returns by blast
  with e show "\<exists>m. get_chunk_performance chunk_id username w = Inr m"
    by (simp add: get_chunk_performance_def Let_def)
qed

theorem get_chunk_performance_spec_witness:
  "st_chunk_performance (load_state None empty_world) = None \<and>
   (\<exists>m. get_chunk_performance ''ab12cd34_chunk_1'' None empty_world = Inr m \<and>
        m_accuracy m = Finite False 0 \<and> m_attempts m = 0) \<and>
   st_chunk_performance (load_state None quarter_world) =
     Some [(''ab12cd34_chunk_1'', quarter_entry)] \<and>
   map_of [(''ab12cd34_chunk_1'', quarter_entry)] ''ab12cd34_chunk_2'' = None \<and>
   (\<exists>m. get_chunk_performance ''ab12cd34_chunk_2'' None quarter_world = Inr m \<and>
        m_accuracy m = Finite False 0 \<and> m_attempts m = 0) \<and>
   map_of [(''ab12cd34_chunk_1'', quarter_entry)] ''ab12cd34_chunk_1'' = Some quarter_entry \<and>
   cr_attempts quarter_entry > 0 \<and>
   0 \<le> cr_correct quarter_entry \<and> cr_correct quarter_entry \<le> cr_attempts quarter_entry \<and>
   py_truediv 7 25 = Inr (Finite False (1261007895663739 / 4503599627370496)) \<and>
   (\<exists>m. get_chunk_performance ''ab12cd34_chunk_1'' None quarter_world = Inr m \<and>
        m_attempts m = 25 \<and> m_correct m = 7 \<and> m_incorrect m = 18 \<and>
        m_accuracy m = Finite False (7881299347898369 / 281474976710656))"
proof -
  have s0: "st_chunk_performance (load_state None empty_world) = None"
    by (simp add: load_state_def empty_world_def empty_state_def)
  have s1: "st_chunk_performance (load_state None quarter_world) =
      Some [(''ab12cd34_chunk_1'', quarter_entry)]"
    by (simp add: load_state_def quarter_world_def)
  have m2: "map_of [(''ab12cd34_chunk_1'', quarter_entry)] ''ab12cd34_chunk_2'' = None"
    by simp
  have m1: "map_of [(''ab12cd34_chunk_1'', quarter_entry)] ''ab12cd34_chunk_1'' =
      Some quarter_entry"
    by simp
  have e: "cr_attempts quarter_entry = 25" "cr_correct quarter_entry = 7"
    "cr_incorrect quarter_entry = 18"
    by (simp_all add: quarter_entry_def)
  note q = example_quotient
  note t = example_product
  from get_chunk_performance_spec [of None empty_world "''ab12cd34_chunk_1''"] s0
  have a: "\<exists>m. get_chunk_performance ''ab12cd34_chunk_1'' None empty_world = Inr m \<and>
        m_accuracy m = Finite False 0 \<and> m_attempts m = 0"
    by blast
  note g = get_chunk_performance_spec [of None quarter_world]
  from g [of "''ab12cd34_chunk_2''", THEN conjunct2, THEN conjunct1] s1 m2
  have b: "\<exists>m. get_chunk_performance ''ab12cd34_chunk_2'' None quarter_world = Inr m \<and>
        m_accuracy m = Finite False 0 \<and> m_attempts m = 0"
    by blast
  from g [of "''ab12cd34_chunk_1''", THEN conjunct2, THEN conjunct2] s1 m1
  have "cr_attempts quarter_entry > 0 \<longrightarrow>
         (case py_truediv (cr_correct quarter_entry) (cr_attempts quarter_entry) of
            Inl e \<Rightarrow> get_chunk_performance ''ab12cd34_chunk_1'' None quarter_world = Inl e
          | Inr q \<Rightarrow>
              (\<exists>m. get_chunk_performance ''ab12cd34_chunk_1'' None quarter_world = Inr m \<and>
                   m_accuracy m = py_times_100 q \<and> m_correct m = cr_correct quarter_entry \<and>
                   m_incorrect m = cr_incorrect quarter_entry \<and>
                   m_attempts m = cr_attempts quarter_entry))"
    by blast
  then have c: "\<exists>m. get_chunk_performance ''ab12cd34_chunk_1'' None quarter_world = Inr m \<and>
        m_attempts m = 25 \<and> m_correct m = 7 \<and> m_incorrect m = 18 \<and>
        m_accuracy m = Finite False (7881299347898369 / 281474976710656)"
    unfolding e q sum.case t by auto
  from s0 a s1 m2 b m1 e q c show ?thesis by simp
qed

section \<open>The file registry\<close>

lemma length_file_hash_of: "length (file_hash_of md5 filename) = 8"
  by (simp add: file_hash_of_def hexdigest_def)

text \<open>
  C5. \<^verbatim>\<open>register_file\<close> is idempotent. The identifier it returns has 8 characters
  and does not depend on the state. After a first call, the identifier is a key of the file
  mapping of the user, and a second call for the same file name and user returns the same
  identifier and leaves the world as it is: nothing is saved, nothing is logged, the
  mapping is unchanged. The first call itself saves and logs at most once.
\<close>

theorem register_file_idempotent:
  assumes "register_file md5 filename username w = (h, w1)"
  shows "register_file md5 filename username w1 = (h, w1) \<and> length h = 8 \<and>
         (\<exists>fm. st_file_mapping (store w1 username) = Some fm \<and> has_key h fm) \<and>
         length (saves w1) \<le> length (saves w) + 1 \<and>
         length (events w1) \<le> length (events w) + 1"
proof -
  from assms have h: "h = file_hash_of md5 filename"
    by (auto simp add: register_file_def Let_def split: if_splits)
  show ?thesis
  proof (cases "has_key h (case st_file_mapping (store w username) of None \<Rightarrow> [] | Some fm \<Rightarrow> fm)")
    case True
    with assms h have "w1 = w"
      by (simp add: register_file_def Let_def load_state_def)
    with True assms h show ?thesis
      by (cases "st_file_mapping (store w username)")
        (simp_all add: length_file_hash_of has_key_def)
  next
    case False
    with assms h have w1: "w1 =
        log_info (''Registered file: '' @ filename @ '' -> '' @ h)
          (save_state
             ((store w username)\<lparr>st_file_mapping :=
                Some (AList.update h filename
                  (case st_file_mapping (store w username) of None \<Rightarrow> [] | Some fm \<Rightarrow> fm))\<rparr>)
             username w)"
      by (simp add: register_file_def Let_def load_state_def)
    then have fm: "st_file_mapping (store w1 username) =
        Some (AList.update h filename
          (case st_file_mapping (store w username) of None \<Rightarrow> [] | Some fm \<Rightarrow> fm))"
      by (simp add: log_info_def save_state_def)
    have key: "has_key h (AList.update h filename
          (case st_file_mapping (store w username) of None \<Rightarrow> [] | Some fm \<Rightarrow> fm))"
      by (simp add: has_key_def dom_update)
    from fm key h have "register_file md5 filename username w1 = (h, w1)"
      by (simp add: register_file_def Let_def load_state_def)
    moreover from w1 have "length (saves w1) \<le> length (saves w) + 1"
      "length (events w1) \<le> length (events w) + 1"
      by (simp_all add: log_info_def save_state_def)
    ultimately show ?thesis using fm key h by (simp add: length_file_hash_of)
  qed
qed

theorem register_file_idempotent_witness:
  "register_file example_md5 ''doc.pdf'' None empty_world = (''0123abcd'', registered_world) \<and>
   register_file example_md5 ''doc.pdf'' None registered_world = (''0123abcd'', registered_world) \<and>
   length ''0123abcd'' = 8 \<and>
   length (saves registered_world) = 1 \<and> length (events registered_world) = 1"
proof -
  have h: "file_hash_of example_md5 ''doc.pdf'' = ''0123abcd''"
    unfolding file_hash_of_def example_md5_def by code_simp
  have first: "register_file example_md5 ''doc.pdf'' None empty_world =
      (''0123abcd'', registered_world)"
    unfolding register_file_def h
    by (simp add: Let_def load_state_def save_state_def log_info_def has_key_def
        empty_world_def empty_state_def registered_world_def registered_state_def)
  from register_file_idempotent [OF first]
  have "register_file example_md5 ''doc.pdf'' None registered_world =
      (''0123abcd'', registered_world)"
    by blast
  with first show ?thesis by (simp add: registered_world_def)
qed



section \<open>Substrings\<close>

text \<open>
  \<^const>\<open>before_first\<close> finds the leftmost occurrence: it fails exactly when there is no
  occurrence, and what it returns is followed by the separator and is the shortest such
  text.
\<close>

lemma occurs_Cons:
  "(\<exists>a b. c # cs = a @ sep @ b) \<longleftrightarrow> prefix sep (c # cs) \<or> (\<exists>a b. cs = a @ sep @ b)"
proof
  assume "\<exists>a b. c # cs = a @ sep @ b"
  then obtain a b where ab: "c # cs = a @ sep @ b" by blast
  show "prefix sep (c # cs) \<or> (\<exists>a b. cs = a @ sep @ b)"
  proof (cases a)
    case Nil
    with ab show ?thesis by (simp add: prefix_def)
  next
    case (Cons x a')
    with ab have "cs = a' @ sep @ b" by simp
    then show ?thesis by blast
  qed
next
  assume "prefix sep (c # cs) \<or> (\<exists>a b. cs = a @ sep @ b)"
  then show "\<exists>a b. c # cs = a @ sep @ b"
  proof
    assume "prefix sep (c # cs)"
    then obtain b where "c # cs = sep @ b" by (auto simp add: prefix_def)
    then have "c # cs = [] @ sep @ b" by simp
    then show ?thesis by blast
  next
    assume "\<exists>a b. cs = a @ sep @ b"
    then obtain a b where "cs = a @ sep @ b" by blast
    then have "c # cs = (c # a) @ sep @ b" by simp
    then show ?thesis by blast
  qed
qed

lemma before_first_None: "before_first sep s = None \<longleftrightarrow> \<not> (\<exists>a b. s = a @ sep @ b)"
proof (induction s)
  case Nil
  show ?case by simp
next
  case (Cons c cs)
  show ?case
    unfolding occurs_Cons using Cons by simp
qed

lemma before_first_Some:
  "before_first sep s = Some a \<Longrightarrow>
     (\<exists>b. s = a @ sep @ b) \<and> (\<forall>a' b'. s = a' @ sep @ b' \<longrightarrow> length a \<le> length a')"
proof (induction s arbitrary: a)
  case Nil
  then show ?case by (simp split: if_splits)
next
  case (Cons c cs)
  show ?case
  proof (cases "prefix sep (c # cs)")
    case True
    with Cons.prems have "a = []" by simp
    with True show ?thesis by (auto simp add: prefix_def)
  next
    case False
    with Cons.prems obtain a0 where a0: "before_first sep cs = Some a0" "a = c # a0"
      by auto
    from Cons.IH [OF a0(1)] obtain b where b: "cs = a0 @ sep @ b"
      and least: "\<forall>a' b'. cs = a' @ sep @ b' \<longrightarrow> length a0 \<le> length a'"
      by blast
    have "length a \<le> length a'" if "c # cs = a' @ sep @ b'" for a' b'
    proof (cases a')
      case Nil
      with that False show ?thesis by (simp add: prefix_def)
    next
      case (Cons x a'')
      with that have "cs = a'' @ sep @ b'" by simp
      with least have "length a0 \<le> length a''" by blast
      with Cons a0 show ?thesis by simp
    qed
    with a0 b show ?thesis by auto
  qed
qed

lemma str_in_iff: "str_in sep s \<longleftrightarrow> (\<exists>a b. s = a @ sep @ b)"
  unfolding str_in_def using before_first_None [of sep s] by simp

lemma split_head_first:
  assumes "s = a @ sep @ b"
    and "\<forall>a' b'. s = a' @ sep @ b' \<longrightarrow> length a \<le> length a'"
  shows "split_head sep s = a"
proof -
  from assms(1) have "before_first sep s \<noteq> None"
    unfolding before_first_None by blast
  then obtain p where p: "before_first sep s = Some p" by blast
  from before_first_Some [OF p] obtain bp where bp: "s = p @ sep @ bp"
    and least: "\<forall>a' b'. s = a' @ sep @ b' \<longrightarrow> length p \<le> length a'"
    by blast
  from assms(2) bp have "length a \<le> length p" by blast
  moreover from least assms(1) have "length p \<le> length a" by blast
  ultimately have "length a = length p" by (rule order_antisym)
  moreover from assms(1) bp have "a @ (sep @ b) = p @ (sep @ bp)" by (rule subst)
  ultimately have "a = p" by simp
  with p show ?thesis by (simp only: split_head_def option.case)
qed

lemma bucket_of_spec:
  "(\<not> (\<exists>a b. k = a @ ''_chunk_'' @ b) \<longrightarrow> bucket_of k = ''unknown'') \<and>
   (\<forall>a b. k = a @ ''_chunk_'' @ b \<and> (\<forall>a' b'. k = a' @ ''_chunk_'' @ b' \<longrightarrow> length a \<le> length a')
      \<longrightarrow> bucket_of k = a)"
proof (intro conjI impI allI)
  assume "\<not> (\<exists>a b. k = a @ ''_chunk_'' @ b)"
  then have "\<not> str_in ''_chunk_'' k" unfolding str_in_iff .
  then show "bucket_of k = ''unknown''" by (simp only: bucket_of_def if_False)
next
  fix a b
  assume h: "k = a @ ''_chunk_'' @ b \<and>
    (\<forall>a' b'. k = a' @ ''_chunk_'' @ b' \<longrightarrow> length a \<le> length a')"
  then have "str_in ''_chunk_'' k" unfolding str_in_iff by blast
  moreover from h have "split_head ''_chunk_'' k = a"
    using split_head_first [of k a "''_chunk_''" b] by blast
  ultimately show "bucket_of k = a" by (simp only: bucket_of_def if_True)
qed

section \<open>The file aggregator\<close>

subsection \<open>One round of the first loop\<close>

lemma sum_list_update:
  "sum_list (map (\<lambda>e. g (snd e)) (AList.update k v al)) =
     sum_list (map (\<lambda>e. g (snd e)) al) + g v -
       (case map_of al k of None \<Rightarrow> 0 | Some v0 \<Rightarrow> (g v0 :: int))"
  by (induction al) auto

lemma new_rollup_fields:
  "r_chunks (new_rollup fh p u w) = []"
  "r_total_attempts (new_rollup fh p u w) = 0"
  "r_total_correct (new_rollup fh p u w) = 0"
  "r_total_incorrect (new_rollup fh p u w) = 0"
  by (simp_all add: new_rollup_def Let_def)

lemma refresh_rollup_fields:
  "r_chunks (fst (refresh_rollup fh p u f w)) = r_chunks f"
  "r_total_attempts (fst (refresh_rollup fh p u f w)) = r_total_attempts f"
  "r_total_correct (fst (refresh_rollup fh p u f w)) = r_total_correct f"
  "r_total_incorrect (fst (refresh_rollup fh p u f w)) = r_total_incorrect f"
  by (simp_all add: refresh_rollup_def Let_def split: option.splits)

lemma add_chunk_fields:
  "fst ` set (r_chunks (add_chunk k p f)) = insert k (fst ` set (r_chunks f))"
  "r_total_attempts (add_chunk k p f) = r_total_attempts f + m_attempts p"
  "r_total_correct (add_chunk k p f) = r_total_correct f + m_correct p"
  "r_total_incorrect (add_chunk k p f) = r_total_incorrect f + m_incorrect p"
  by (simp_all add: add_chunk_def dom_update)

lemma fst_group_step:
  "fst (group_step u (k, p) (files, w)) =
     AList.update (bucket_of k) (stepped_rollup u k p files w) files"
  by (simp add: group_step_def stepped_rollup_def Let_def split: option.splits prod.splits)

lemma stepped_rollup_fields:
  "fst ` set (r_chunks (stepped_rollup u k p files w)) =
     insert k (case map_of files (bucket_of k) of None \<Rightarrow> {} | Some f \<Rightarrow> fst ` set (r_chunks f))"
  "r_total_attempts (stepped_rollup u k p files w) =
     (case map_of files (bucket_of k) of None \<Rightarrow> 0 | Some f \<Rightarrow> r_total_attempts f) + m_attempts p"
  "r_total_correct (stepped_rollup u k p files w) =
     (case map_of files (bucket_of k) of None \<Rightarrow> 0 | Some f \<Rightarrow> r_total_correct f) + m_correct p"
  "r_total_incorrect (stepped_rollup u k p files w) =
     (case map_of files (bucket_of k) of None \<Rightarrow> 0 | Some f \<Rightarrow> r_total_incorrect f) + m_incorrect p"
  by (simp_all add: stepped_rollup_def add_chunk_fields new_rollup_fields refresh_rollup_fields
      split: option.splits)

subsection \<open>The invariant of the first loop\<close>

lemma grouped_step:
  assumes "grouped ps files"
  shows "grouped (ps @ [(k, p)]) (AList.update (bucket_of k) (stepped_rollup u k p files w) files)"
proof -
  let ?files' = "AList.update (bucket_of k) (stepped_rollup u k p files w) files"
  from assms have d: "distinct (map fst ?files')"
    by (simp add: grouped_def distinct_update)
  have s1: "sum_list (map (\<lambda>e. r_total_attempts (snd e)) ?files') =
            sum_list (map (\<lambda>e. m_attempts (snd e)) (ps @ [(k, p)]))"
    using assms
    by (simp add: grouped_def sum_list_update stepped_rollup_fields split: option.splits)
  have s2: "sum_list (map (\<lambda>e. r_total_correct (snd e)) ?files') =
            sum_list (map (\<lambda>e. m_correct (snd e)) (ps @ [(k, p)]))"
    using assms
    by (simp add: grouped_def sum_list_update stepped_rollup_fields split: option.splits)
  have s3: "sum_list (map (\<lambda>e. r_total_incorrect (snd e)) ?files') =
            sum_list (map (\<lambda>e. m_incorrect (snd e)) (ps @ [(k, p)]))"
    using assms
    by (simp add: grouped_def sum_list_update stepped_rollup_fields split: option.splits)
  have c: "case map_of ?files' fh of
             None \<Rightarrow> (\<forall>e \<in> set (ps @ [(k, p)]). bucket_of (fst e) \<noteq> fh)
           | Some f \<Rightarrow>
               fst ` set (r_chunks f) = {k' \<in> fst ` set (ps @ [(k, p)]). bucket_of k' = fh} \<and>
               (\<exists>e \<in> set (ps @ [(k, p)]). bucket_of (fst e) = fh)" for fh
  proof -
    from assms have old: "case map_of files fh of
             None \<Rightarrow> (\<forall>e \<in> set ps. bucket_of (fst e) \<noteq> fh)
           | Some f \<Rightarrow> fst ` set (r_chunks f) = {k \<in> fst ` set ps. bucket_of k = fh} \<and>
                       (\<exists>e \<in> set ps. bucket_of (fst e) = fh)"
      by (simp add: grouped_def)
    show ?thesis
    proof (cases "fh = bucket_of k")
      case True
      with old show ?thesis
        by (auto simp add: update_conv' stepped_rollup_fields split: option.splits)
    next
      case False
      with old show ?thesis
        by (auto simp add: update_conv' split: option.splits)
    qed
  qed
  from d s1 s2 s3 c show ?thesis
    unfolding grouped_def by blast
qed

lemma grouped_fold:
  "grouped ps (fst (fold (group_step u) ps ([], w)))"
proof (induction ps rule: rev_induct)
  case Nil
  show ?case by (simp add: grouped_def)
next
  case (snoc e ps)
  obtain k p where e: "e = (k, p)" by (cases e)
  obtain files w' where f: "fold (group_step u) ps ([], w) = (files, w')"
    by (cases "fold (group_step u) ps ([], w)")
  with snoc have "grouped ps files" by simp
  then have "grouped (ps @ [(k, p)]) (fst (group_step u (k, p) (files, w')))"
    unfolding fst_group_step by (rule grouped_step)
  with e f show ?case by simp
qed

subsection \<open>The second loop\<close>

lemma finish_rollup_fields:
  assumes "finish_rollup f = Inr r"
  shows "r_total_attempts r = r_total_attempts f"
    and "r_total_correct r = r_total_correct f"
    and "r_total_incorrect r = r_total_incorrect f"
    and "r_chunks r = r_chunks f"
    and "r_filename r = r_filename f"
    and "r_file_hash r = r_file_hash f"
  using assms by (auto simp add: finish_rollup_def Let_def split: sum.splits)

lemma finish_rollup_returns:
  "0 \<le> r_total_correct f \<Longrightarrow> r_total_correct f \<le> r_total_attempts f \<Longrightarrow>
     \<exists>r. finish_rollup f = Inr r"
  using accuracy_of_returns [of "r_total_correct f" "r_total_attempts f"]
  by (auto simp add: finish_rollup_def Let_def)

lemma finish_rollup_error: "finish_rollup f = Inl e \<Longrightarrow> e = OverflowError"
  using accuracy_of_error [of "r_total_correct f" "r_total_attempts f" e]
  by (auto simp add: finish_rollup_def Let_def split: sum.splits)

lemma finish_rollups_Inr:
  "finish_rollups fs = Inr rs \<Longrightarrow>
     list_all2 (\<lambda>a b. fst b = fst a \<and> finish_rollup (snd a) = Inr (snd b)) fs rs"
  by (induction fs arbitrary: rs) (auto split: sum.splits)

lemma finish_rollups_returns:
  "\<forall>e \<in> set fs. 0 \<le> r_total_correct (snd e) \<and> r_total_correct (snd e) \<le> r_total_attempts (snd e)
     \<Longrightarrow> \<exists>rs. finish_rollups fs = Inr rs"
proof (induction fs)
  case Nil
  show ?case by simp
next
  case (Cons a fs)
  obtain fh f where a: "a = (fh, f)" by (cases a)
  with Cons.prems obtain r where "finish_rollup f = Inr r"
    using finish_rollup_returns [of f] by auto
  moreover from Cons obtain rs where "finish_rollups fs = Inr rs" by auto
  ultimately show ?case using a by simp
qed

lemma finish_rollups_error: "finish_rollups fs = Inl e \<Longrightarrow> e = OverflowError"
  by (induction fs) (auto split: sum.splits dest: finish_rollup_error)

lemma finished_keys:
  "list_all2 (\<lambda>a b. fst b = fst a \<and> finish_rollup (snd a) = Inr (snd b)) fs rs \<Longrightarrow>
     map fst rs = map fst fs"
  by (induction rule: list_all2_induct) auto

lemma finished_sums:
  assumes "list_all2 (\<lambda>a b. fst b = fst a \<and> finish_rollup (snd a) = Inr (snd b)) fs rs"
  shows "sum_list (map (\<lambda>e. r_total_attempts (snd e)) rs) =
           sum_list (map (\<lambda>e. r_total_attempts (snd e)) fs)"
    and "sum_list (map (\<lambda>e. r_total_correct (snd e)) rs) =
           sum_list (map (\<lambda>e. r_total_correct (snd e)) fs)"
    and "sum_list (map (\<lambda>e. r_total_incorrect (snd e)) rs) =
           sum_list (map (\<lambda>e. r_total_incorrect (snd e)) fs)"
  using assms by (induction rule: list_all2_induct) (auto simp add: finish_rollup_fields)

lemma finished_member:
  assumes "list_all2 (\<lambda>a b. fst b = fst a \<and> finish_rollup (snd a) = Inr (snd b)) fs rs"
  shows "(fh, r) \<in> set rs \<longleftrightarrow> (\<exists>f. (fh, f) \<in> set fs \<and> finish_rollup f = Inr r)"
  using assms by (induction rule: list_all2_induct) auto

lemma finished_view:
  assumes "list_all2 (\<lambda>a b. fst b = fst a \<and> finish_rollup (snd a) = Inr (snd b)) fs rs"
  shows "map (\<lambda>e. (fst e, r_filename (snd e), map fst (r_chunks (snd e)),
                    r_total_attempts (snd e))) rs =
         map (\<lambda>e. (fst e, r_filename (snd e), map fst (r_chunks (snd e)),
                    r_total_attempts (snd e))) fs"
  using assms by (induction rule: list_all2_induct) (auto simp add: finish_rollup_fields)

lemma group_chunks_by_file_Inr:
  assumes "fst (group_chunks_by_file all_perf username w) = Inr files"
  shows "list_all2 (\<lambda>a b. fst b = fst a \<and> finish_rollup (snd a) = Inr (snd b))
           (fst (group_rollups all_perf username w)) files"
  using assms
  by (auto simp add: group_chunks_by_file_def split: prod.splits intro: finish_rollups_Inr)

lemma fst_group_chunks_by_file:
  "fst (group_chunks_by_file all_perf username w) =
     finish_rollups (fst (group_rollups all_perf username w))"
  by (simp add: group_chunks_by_file_def case_prod_beta)

lemma snd_group_chunks_by_file:
  "snd (group_chunks_by_file all_perf username w) = snd (group_rollups all_perf username w)"
  by (simp add: group_chunks_by_file_def split: prod.splits)

subsection \<open>Totals of entries with \<open>0 \<le> correct \<le> attempts\<close>\<close>

lemma group_fold_bounded:
  assumes "\<forall>e \<in> set ps. 0 \<le> m_correct (snd e) \<and> m_correct (snd e) \<le> m_attempts (snd e)"
  shows "\<forall>fh f. map_of (fst (fold (group_step u) ps ([], w))) fh = Some f \<longrightarrow>
           0 \<le> r_total_correct f \<and> r_total_correct f \<le> r_total_attempts f"
  using assms
proof (induction ps rule: rev_induct)
  case Nil
  show ?case by simp
next
  case (snoc e ps)
  obtain k p where e: "e = (k, p)" by (cases e)
  obtain files w' where f: "fold (group_step u) ps ([], w) = (files, w')"
    by (cases "fold (group_step u) ps ([], w)")
  from snoc f have IH: "\<forall>fh f. map_of files fh = Some f \<longrightarrow>
      0 \<le> r_total_correct f \<and> r_total_correct f \<le> r_total_attempts f"
    by simp
  from snoc.prems e have p: "0 \<le> m_correct p" "m_correct p \<le> m_attempts p" by simp_all
  have new: "0 \<le> r_total_correct (stepped_rollup u k p files w') \<and>
      r_total_correct (stepped_rollup u k p files w') \<le>
        r_total_attempts (stepped_rollup u k p files w')"
  proof (cases "map_of files (bucket_of k)")
    case None
    with p show ?thesis by (simp add: stepped_rollup_fields)
  next
    case (Some f0)
    with IH have "0 \<le> r_total_correct f0 \<and> r_total_correct f0 \<le> r_total_attempts f0" by blast
    with Some p show ?thesis by (simp add: stepped_rollup_fields)
  qed
  have "fst (fold (group_step u) (ps @ [e]) ([], w)) =
      AList.update (bucket_of k) (stepped_rollup u k p files w') files"
    using e f by (simp add: fst_group_step)
  with IH new show ?case by (simp add: update_conv')
qed

lemma group_chunks_by_file_returns:
  assumes "\<forall>e \<in> set all_perf. 0 \<le> m_correct (snd e) \<and> m_correct (snd e) \<le> m_attempts (snd e)"
  shows "\<exists>files. fst (group_chunks_by_file all_perf username w) = Inr files"
proof -
  let ?w0 = "backfill_file_mapping_from_chunks username w"
  obtain fs w' where fw: "fold (group_step username) all_perf ([], ?w0) = (fs, w')"
    by (cases "fold (group_step username) all_perf ([], ?w0)")
  have res: "fst (group_chunks_by_file all_perf username w) = finish_rollups fs"
    by (simp add: group_chunks_by_file_def group_rollups_def fw)
  from grouped_fold [of all_perf username ?w0] fw
  have "grouped all_perf fs" by simp
  then have d: "distinct (map fst fs)" by (simp add: grouped_def)
  from group_fold_bounded [OF assms, of username ?w0] fw
  have "\<forall>fh f. map_of fs fh = Some f \<longrightarrow>
      0 \<le> r_total_correct f \<and> r_total_correct f \<le> r_total_attempts f"
    by simp
  with d have "\<forall>e \<in> set fs. 0 \<le> r_total_correct (snd e) \<and>
      r_total_correct (snd e) \<le> r_total_attempts (snd e)"
    by (metis map_of_is_SomeI prod.collapse)
  then show ?thesis unfolding res by (rule finish_rollups_returns)
qed

subsection \<open>The partition\<close>

text \<open>
  C1. \<^verbatim>\<open>group_chunks_by_file\<close> partitions its input. In the dictionary it returns,
  the \<^verbatim>\<open>total_attempts\<close> of the rollups add up to the \<^verbatim>\<open>attempts\<close> of the input
  entries, and likewise \<^verbatim>\<open>total_correct\<close> and \<^verbatim>\<open>total_incorrect\<close>; the rollups
  have distinct file hashes, and every input chunk key is in the chunk map of the rollup
  of its bucket and of no other rollup. The call returns whenever every input entry has
  \<open>0 \<le> correct \<le> attempts\<close>; the one exception it can raise is the
  \<^verbatim>\<open>OverflowError\<close> of an accuracy whose quotient is too large for a float. The
  bucket of a key is \<^verbatim>\<open>"unknown"\<close> when the key does not contain \<^verbatim>\<open>"_chunk_"\<close>, and
  otherwise the text before its first \<^verbatim>\<open>"_chunk_"\<close>.
\<close>

theorem group_chunks_by_file_partition:
  "(\<forall>files. fst (group_chunks_by_file all_perf username w) = Inr files \<longrightarrow>
      sum_list (map (\<lambda>e. r_total_attempts (snd e)) files) =
        sum_list (map (\<lambda>e. m_attempts (snd e)) all_perf) \<and>
      sum_list (map (\<lambda>e. r_total_correct (snd e)) files) =
        sum_list (map (\<lambda>e. m_correct (snd e)) all_perf) \<and>
      sum_list (map (\<lambda>e. r_total_incorrect (snd e)) files) =
        sum_list (map (\<lambda>e. m_incorrect (snd e)) all_perf) \<and>
      distinct (map fst files) \<and>
      (\<forall>e \<in> set all_perf.
         (\<exists>f. (bucket_of (fst e), f) \<in> set files \<and> has_key (fst e) (r_chunks f)) \<and>
         (\<forall>fh f. (fh, f) \<in> set files \<and> has_key (fst e) (r_chunks f) \<longrightarrow>
            fh = bucket_of (fst e)))) \<and>
   ((\<forall>e \<in> set all_perf. 0 \<le> m_correct (snd e) \<and> m_correct (snd e) \<le> m_attempts (snd e)) \<longrightarrow>
      (\<exists>files. fst (group_chunks_by_file all_perf username w) = Inr files)) \<and>
   (\<forall>e. fst (group_chunks_by_file all_perf username w) = Inl e \<longrightarrow> e = OverflowError) \<and>
   (\<forall>k. (\<not> (\<exists>a b. k = a @ ''_chunk_'' @ b) \<longrightarrow> bucket_of k = ''unknown'') \<and>
        (\<forall>a b. k = a @ ''_chunk_'' @ b \<and>
               (\<forall>a' b'. k = a' @ ''_chunk_'' @ b' \<longrightarrow> length a \<le> length a')
           \<longrightarrow> bucket_of k = a))"
proof -
  let ?w0 = "backfill_file_mapping_from_chunks username w"
  obtain fs w' where fw: "fold (group_step username) all_perf ([], ?w0) = (fs, w')"
    by (cases "fold (group_step username) all_perf ([], ?w0)")
  have res: "fst (group_chunks_by_file all_perf username w) = finish_rollups fs"
    by (simp add: group_chunks_by_file_def group_rollups_def fw)
  from grouped_fold [of all_perf username ?w0] fw
  have g: "grouped all_perf fs" by simp
  from g have d: "distinct (map fst fs)" by (simp add: grouped_def)
  from g have c: "case map_of fs fh of
           None \<Rightarrow> (\<forall>e \<in> set all_perf. bucket_of (fst e) \<noteq> fh)
         | Some f \<Rightarrow> fst ` set (r_chunks f) = {k \<in> fst ` set all_perf. bucket_of k = fh} \<and>
                     (\<exists>e \<in> set all_perf. bucket_of (fst e) = fh)" for fh
    by (simp add: grouped_def)
  have t1: "sum_list (map (\<lambda>e. r_total_attempts (snd e)) files) =
        sum_list (map (\<lambda>e. m_attempts (snd e)) all_perf) \<and>
      sum_list (map (\<lambda>e. r_total_correct (snd e)) files) =
        sum_list (map (\<lambda>e. m_correct (snd e)) all_perf) \<and>
      sum_list (map (\<lambda>e. r_total_incorrect (snd e)) files) =
        sum_list (map (\<lambda>e. m_incorrect (snd e)) all_perf) \<and>
      distinct (map fst files) \<and>
      (\<forall>e \<in> set all_perf.
         (\<exists>f. (bucket_of (fst e), f) \<in> set files \<and> has_key (fst e) (r_chunks f)) \<and>
         (\<forall>fh f. (fh, f) \<in> set files \<and> has_key (fst e) (r_chunks f) \<longrightarrow>
            fh = bucket_of (fst e)))"
    if ret: "fst (group_chunks_by_file all_perf username w) = Inr files" for files
  proof -
    from ret res have "finish_rollups fs = Inr files" by simp
    then have rel: "list_all2 (\<lambda>a b. fst b = fst a \<and> finish_rollup (snd a) = Inr (snd b)) fs files"
      by (rule finish_rollups_Inr)
    note mem = finished_member [OF rel]
    from g have s1: "sum_list (map (\<lambda>e. r_total_attempts (snd e)) files) =
        sum_list (map (\<lambda>e. m_attempts (snd e)) all_perf)"
      unfolding finished_sums(1) [OF rel] by (simp only: grouped_def)
    from g have s2: "sum_list (map (\<lambda>e. r_total_correct (snd e)) files) =
        sum_list (map (\<lambda>e. m_correct (snd e)) all_perf)"
      unfolding finished_sums(2) [OF rel] by (simp only: grouped_def)
    from g have s3: "sum_list (map (\<lambda>e. r_total_incorrect (snd e)) files) =
        sum_list (map (\<lambda>e. m_incorrect (snd e)) all_perf)"
      unfolding finished_sums(3) [OF rel] by (simp only: grouped_def)
    from d have s4: "distinct (map fst files)"
      unfolding finished_keys [OF rel] .
    have part: "(\<exists>f. (bucket_of (fst e), f) \<in> set files \<and> has_key (fst e) (r_chunks f)) \<and>
        (\<forall>fh f. (fh, f) \<in> set files \<and> has_key (fst e) (r_chunks f) \<longrightarrow> fh = bucket_of (fst e))"
      if e: "e \<in> set all_perf" for e
    proof -
      from c [of "bucket_of (fst e)"] e obtain f0
        where f0: "map_of fs (bucket_of (fst e)) = Some f0"
          and ch: "fst ` set (r_chunks f0) =
                     {k \<in> fst ` set all_perf. bucket_of k = bucket_of (fst e)}"
        by (cases "map_of fs (bucket_of (fst e))") auto
      from f0 have in0: "(bucket_of (fst e), f0) \<in> set fs" by (rule map_of_SomeD)
      from rel in0 obtain r0 where r0: "(bucket_of (fst e), r0) \<in> set files"
        "finish_rollup f0 = Inr r0"
        by (auto simp add: list_all2_conv_all_nth in_set_conv_nth) (metis fst_conv snd_conv prod.collapse)
      from ch e have "has_key (fst e) (r_chunks f0)" by (auto simp add: has_key_def)
      with r0 have ex: "\<exists>f. (bucket_of (fst e), f) \<in> set files \<and> has_key (fst e) (r_chunks f)"
        by (auto simp add: finish_rollup_fields)
      have un: "fh = bucket_of (fst e)"
        if "(fh, r) \<in> set files" and "has_key (fst e) (r_chunks r)" for fh r
      proof -
        from that(1) obtain f1 where f1: "(fh, f1) \<in> set fs" "finish_rollup f1 = Inr r"
          unfolding mem by blast
        from f1(1) d have "map_of fs fh = Some f1" by simp
        with c [of fh] have "fst ` set (r_chunks f1) = {k \<in> fst ` set all_perf. bucket_of k = fh}"
          by simp
        with that(2) f1(2) show ?thesis by (auto simp add: has_key_def finish_rollup_fields)
      qed
      from ex un show ?thesis by blast
    qed
    from s1 s2 s3 s4 part show ?thesis by blast
  qed
  have t2: "\<exists>files. fst (group_chunks_by_file all_perf username w) = Inr files"
    if b: "\<forall>e \<in> set all_perf. 0 \<le> m_correct (snd e) \<and> m_correct (snd e) \<le> m_attempts (snd e)"
    using b by (rule group_chunks_by_file_returns)
  have t3: "\<forall>e. fst (group_chunks_by_file all_perf username w) = Inl e \<longrightarrow> e = OverflowError"
    unfolding res using finish_rollups_error by blast
  have t4: "\<forall>k. (\<not> (\<exists>a b. k = a @ ''_chunk_'' @ b) \<longrightarrow> bucket_of k = ''unknown'') \<and>
        (\<forall>a b. k = a @ ''_chunk_'' @ b \<and>
               (\<forall>a' b'. k = a' @ ''_chunk_'' @ b' \<longrightarrow> length a \<le> length a')
           \<longrightarrow> bucket_of k = a)"
    using bucket_of_spec by blast
  show ?thesis
  proof (intro conjI)
    show "\<forall>files. fst (group_chunks_by_file all_perf username w) = Inr files \<longrightarrow>
      sum_list (map (\<lambda>e. r_total_attempts (snd e)) files) =
        sum_list (map (\<lambda>e. m_attempts (snd e)) all_perf) \<and>
      sum_list (map (\<lambda>e. r_total_correct (snd e)) files) =
        sum_list (map (\<lambda>e. m_correct (snd e)) all_perf) \<and>
      sum_list (map (\<lambda>e. r_total_incorrect (snd e)) files) =
        sum_list (map (\<lambda>e. m_incorrect (snd e)) all_perf) \<and>
      distinct (map fst files) \<and>
      (\<forall>e \<in> set all_perf.
         (\<exists>f. (bucket_of (fst e), f) \<in> set files \<and> has_key (fst e) (r_chunks f)) \<and>
         (\<forall>fh f. (fh, f) \<in> set files \<and> has_key (fst e) (r_chunks f) \<longrightarrow>
            fh = bucket_of (fst e)))"
      using t1 by blast
    show "(\<forall>e \<in> set all_perf. 0 \<le> m_correct (snd e) \<and> m_correct (snd e) \<le> m_attempts (snd e)) \<longrightarrow>
      (\<exists>files. fst (group_chunks_by_file all_perf username w) = Inr files)"
      using t2 by blast
    show "\<forall>e. fst (group_chunks_by_file all_perf username w) = Inl e \<longrightarrow> e = OverflowError"
      by (rule t3)
    show "\<forall>k. (\<not> (\<exists>a b. k = a @ ''_chunk_'' @ b) \<longrightarrow> bucket_of k = ''unknown'') \<and>
        (\<forall>a b. k = a @ ''_chunk_'' @ b \<and>
               (\<forall>a' b'. k = a' @ ''_chunk_'' @ b' \<longrightarrow> length a \<le> length a')
           \<longrightarrow> bucket_of k = a)"
      by (rule t4)
  qed
qed

lemma example_buckets:
  "bucket_of ''ab12cd34_chunk_1'' = ''ab12cd34''"
  "bucket_of ''ab12cd34_chunk_2'' = ''ab12cd34''"
  "bucket_of ''introduction_to_aws'' = ''unknown''"
  by (simp_all add: bucket_of_def str_in_def split_head_def)

theorem group_chunks_by_file_partition_witness:
  "(''ab12cd34_chunk_2'', example_metrics 1 1 (Finite False 50) None) \<in> set example_perf \<and>
   (''introduction_to_aws'', example_metrics 0 1 (Finite False 0) None) \<in> set example_perf \<and>
   (\<exists>files. fst (group_chunks_by_file example_perf None empty_world) = Inr files \<and>
      sum_list (map (\<lambda>e. r_total_attempts (snd e)) files) = 7 \<and>
      sum_list (map (\<lambda>e. r_total_correct (snd e)) files) = 4 \<and>
      sum_list (map (\<lambda>e. r_total_incorrect (snd e)) files) = 3 \<and>
      (\<exists>f. (''ab12cd34'', f) \<in> set files \<and> has_key ''ab12cd34_chunk_2'' (r_chunks f)) \<and>
      (\<exists>f. (''unknown'', f) \<in> set files \<and> has_key ''introduction_to_aws'' (r_chunks f)) \<and>
      map (\<lambda>e. (fst e, r_filename (snd e), map fst (r_chunks (snd e)),
                 r_total_attempts (snd e))) files =
        [(''ab12cd34'', Some ''doc.pdf'', [''ab12cd34_chunk_1'', ''ab12cd34_chunk_2''], 6),
         (''unknown'', None, [''introduction_to_aws''], 1)])"
proof -
  have e2: "(''ab12cd34_chunk_2'', example_metrics 1 1 (Finite False 50) None) \<in> set example_perf"
    by (simp add: example_perf_def)
  have e3: "(''introduction_to_aws'', example_metrics 0 1 (Finite False 0) None) \<in> set example_perf"
    by (simp add: example_perf_def)
  have sums: "sum_list (map (\<lambda>e. m_attempts (snd e)) example_perf) = 7"
    "sum_list (map (\<lambda>e. m_correct (snd e)) example_perf) = 4"
    "sum_list (map (\<lambda>e. m_incorrect (snd e)) example_perf) = 3"
    by (simp_all add: example_perf_def example_metrics_def)
  have bounded: "\<forall>e \<in> set example_perf.
      0 \<le> m_correct (snd e) \<and> m_correct (snd e) \<le> m_attempts (snd e)"
    by (simp add: example_perf_def example_metrics_def)
  have run: "map (\<lambda>e. (fst e, r_filename (snd e), map fst (r_chunks (snd e)),
                        r_total_attempts (snd e)))
     (fst (group_rollups example_perf None empty_world)) =
     [(''ab12cd34'', Some ''doc.pdf'', [''ab12cd34_chunk_1'', ''ab12cd34_chunk_2''], 6),
      (''unknown'', None, [''introduction_to_aws''], 1)]"
    by code_simp
  note p = group_chunks_by_file_partition [of example_perf None empty_world]
  from p [THEN conjunct2, THEN conjunct1] bounded
  obtain files where ret: "fst (group_chunks_by_file example_perf None empty_world) = Inr files"
    by blast
  have q: "sum_list (map (\<lambda>e. r_total_attempts (snd e)) files) =
        sum_list (map (\<lambda>e. m_attempts (snd e)) example_perf) \<and>
      sum_list (map (\<lambda>e. r_total_correct (snd e)) files) =
        sum_list (map (\<lambda>e. m_correct (snd e)) example_perf) \<and>
      sum_list (map (\<lambda>e. r_total_incorrect (snd e)) files) =
        sum_list (map (\<lambda>e. m_incorrect (snd e)) example_perf) \<and>
      distinct (map fst files) \<and>
      (\<forall>e \<in> set example_perf.
         (\<exists>f. (bucket_of (fst e), f) \<in> set files \<and> has_key (fst e) (r_chunks f)) \<and>
         (\<forall>fh f. (fh, f) \<in> set files \<and> has_key (fst e) (r_chunks f) \<longrightarrow>
            fh = bucket_of (fst e)))"
    by (rule p [THEN conjunct1, THEN spec, THEN mp, OF ret])
  note q1 = q [THEN conjunct1]
  note q2 = q [THEN conjunct2, THEN conjunct1]
  note q3 = q [THEN conjunct2, THEN conjunct2, THEN conjunct1]
  note q5 = q [THEN conjunct2, THEN conjunct2, THEN conjunct2, THEN conjunct2]
  from bspec [OF q5 e2, THEN conjunct1] have a: "\<exists>f. (''ab12cd34'', f) \<in> set files \<and>
        has_key ''ab12cd34_chunk_2'' (r_chunks f)"
    by (simp add: example_buckets)
  from bspec [OF q5 e3, THEN conjunct1] have b: "\<exists>f. (''unknown'', f) \<in> set files \<and>
        has_key ''introduction_to_aws'' (r_chunks f)"
    by (simp add: example_buckets)
  from q1 q2 q3 sums have s: "sum_list (map (\<lambda>e. r_total_attempts (snd e)) files) = 7 \<and>
      sum_list (map (\<lambda>e. r_total_correct (snd e)) files) = 4 \<and>
      sum_list (map (\<lambda>e. r_total_incorrect (snd e)) files) = 3"
    by simp
  from finished_view [OF group_chunks_by_file_Inr [OF ret]] run
  have v: "map (\<lambda>e. (fst e, r_filename (snd e), map fst (r_chunks (snd e)),
                 r_total_attempts (snd e))) files =
        [(''ab12cd34'', Some ''doc.pdf'', [''ab12cd34_chunk_1'', ''ab12cd34_chunk_2''], 6),
         (''unknown'', None, [''introduction_to_aws''], 1)]"
    by (simp only:)
  define P where "P = (\<lambda>files. fst (group_chunks_by_file example_perf None empty_world) = Inr files \<and>
      sum_list (map (\<lambda>e. r_total_attempts (snd e)) files) = 7 \<and>
      sum_list (map (\<lambda>e. r_total_correct (snd e)) files) = 4 \<and>
      sum_list (map (\<lambda>e. r_total_incorrect (snd e)) files) = 3 \<and>
      (\<exists>f. (''ab12cd34'', f) \<in> set files \<and> has_key ''ab12cd34_chunk_2'' (r_chunks f)) \<and>
      (\<exists>f. (''unknown'', f) \<in> set files \<and> has_key ''introduction_to_aws'' (r_chunks f)) \<and>
      map (\<lambda>e. (fst e, r_filename (snd e), map fst (r_chunks (snd e)),
                 r_total_attempts (snd e))) files =
        [(''ab12cd34'', Some ''doc.pdf'', [''ab12cd34_chunk_1'', ''ab12cd34_chunk_2''], 6),
         (''unknown'', None, [''introduction_to_aws''], 1)])"
  from ret s a b v have "P files"
    unfolding P_def by (intro conjI) (simp_all only:)
  then have "\<exists>files. P files" by (rule exI)
  then have ex: "\<exists>files. fst (group_chunks_by_file example_perf None empty_world) = Inr files \<and>
      sum_list (map (\<lambda>e. r_total_attempts (snd e)) files) = 7 \<and>
      sum_list (map (\<lambda>e. r_total_correct (snd e)) files) = 4 \<and>
      sum_list (map (\<lambda>e. r_total_incorrect (snd e)) files) = 3 \<and>
      (\<exists>f. (''ab12cd34'', f) \<in> set files \<and> has_key ''ab12cd34_chunk_2'' (r_chunks f)) \<and>
      (\<exists>f. (''unknown'', f) \<in> set files \<and> has_key ''introduction_to_aws'' (r_chunks f)) \<and>
      map (\<lambda>e. (fst e, r_filename (snd e), map fst (r_chunks (snd e)),
                 r_total_attempts (snd e))) files =
        [(''ab12cd34'', Some ''doc.pdf'', [''ab12cd34_chunk_1'', ''ab12cd34_chunk_2''], 6),
         (''unknown'', None, [''introduction_to_aws''], 1)]"
    unfolding P_def .
  from e2 e3 ex show ?thesis by (intro conjI)
qed



section \<open>The reference parser\<close>

subsection \<open>The pattern for the chunk number\<close>

lemma digit_not_space: "is_digit x \<Longrightarrow> \<not> is_space x"
  by (auto simp add: is_digit_def is_space_def)

lemma dropWhile_spaces:
  assumes "\<forall>x \<in> set ws. is_space x" and "ds \<noteq> []" and "\<forall>x \<in> set ds. is_digit x"
  shows "dropWhile is_space (ws @ ds @ rest) = ds @ rest"
proof -
  from assms(2) obtain d ds' where ds: "ds = d # ds'" by (cases ds) auto
  with assms(3) have "\<not> is_space d" by (simp add: digit_not_space)
  with ds have "dropWhile is_space (ds @ rest) = ds @ rest" by simp
  with assms(1) show ?thesis by (simp add: dropWhile_append2)
qed

lemma takeWhile_digits:
  assumes "\<forall>x \<in> set ds. is_digit x" and "rest = [] \<or> \<not> is_digit (hd rest)"
  shows "takeWhile is_digit (ds @ rest) = ds"
proof -
  from assms(2) have "takeWhile is_digit rest = []"
    by (cases rest) auto
  with assms(1) show ?thesis by (simp add: takeWhile_append2)
qed

lemma number_after_keyword:
  "(prefix kw t \<and> takeWhile is_digit (dropWhile is_space (drop (length kw) t)) = ds \<and> ds \<noteq> [])
   \<longleftrightarrow>
   (\<exists>ws rest. t = kw @ ws @ ds @ rest \<and> (\<forall>x \<in> set ws. is_space x) \<and> ds \<noteq> [] \<and>
      (\<forall>x \<in> set ds. is_digit x) \<and> (rest = [] \<or> \<not> is_digit (hd rest)))"
  (is "?L \<longleftrightarrow> ?R")
proof
  assume l: ?L
  then obtain u where u: "t = kw @ u" by (auto simp add: prefix_def)
  let ?ws = "takeWhile is_space u"
  let ?v = "dropWhile is_space u"
  let ?rest = "dropWhile is_digit ?v"
  from l u have ds: "ds = takeWhile is_digit ?v" by simp
  have "u = ?ws @ ?v" by simp
  also have "?v = ds @ ?rest" unfolding ds by simp
  finally have "t = kw @ ?ws @ ds @ ?rest" using u by simp
  moreover have "\<forall>x \<in> set ?ws. is_space x" by (auto dest: set_takeWhileD)
  moreover have "\<forall>x \<in> set ds. is_digit x" unfolding ds by (auto dest: set_takeWhileD)
  moreover have "?rest = [] \<or> \<not> is_digit (hd ?rest)"
    by (cases "?rest = []") (auto simp add: hd_dropWhile)
  moreover from l have "ds \<noteq> []" by simp
  ultimately show ?R by blast
next
  assume ?R
  then obtain ws rest where t: "t = kw @ ws @ ds @ rest"
    and ws: "\<forall>x \<in> set ws. is_space x" and ne: "ds \<noteq> []"
    and dg: "\<forall>x \<in> set ds. is_digit x" and r: "rest = [] \<or> \<not> is_digit (hd rest)"
    by blast
  from t have "prefix kw t" by simp
  moreover from t have "drop (length kw) t = ws @ ds @ rest" by simp
  then have "takeWhile is_digit (dropWhile is_space (drop (length kw) t)) = ds"
    using dropWhile_spaces [OF ws ne dg, of rest] takeWhile_digits [OF dg r] by simp
  ultimately show ?L using ne by simp
qed

lemma match_chunk_here_iff: "match_chunk_here t = Some ds \<longleftrightarrow> chunk_token_at t ds"
proof (cases t)
  case Nil
  then show ?thesis by (simp add: match_chunk_here_def chunk_token_at_def)
next
  case (Cons c t')
  have len: "length ''hunk'' = 4" by simp
  have "match_chunk_here t = Some ds \<longleftrightarrow>
      (c = CHR ''C'' \<or> c = CHR ''c'') \<and>
      (prefix ''hunk'' t' \<and>
       takeWhile is_digit (dropWhile is_space (drop (length ''hunk'') t')) = ds \<and> ds \<noteq> [])"
    unfolding len Cons by (auto simp add: match_chunk_here_def Let_def)
  also have "\<dots> \<longleftrightarrow>
      (c = CHR ''C'' \<or> c = CHR ''c'') \<and>
      (\<exists>ws rest. t' = ''hunk'' @ ws @ ds @ rest \<and> (\<forall>x \<in> set ws. is_space x) \<and> ds \<noteq> [] \<and>
      (\<forall>x \<in> set ds. is_digit x) \<and> (rest = [] \<or> \<not> is_digit (hd rest)))"
    unfolding number_after_keyword ..
  also have "\<dots> \<longleftrightarrow> chunk_token_at t ds"
    unfolding chunk_token_at_def Cons by auto
  finally show ?thesis .
qed


lemma search_chunk_None:
  "search_chunk s = None \<longleftrightarrow> (\<forall>pre t ds. s = pre @ t \<longrightarrow> \<not> chunk_token_at t ds)"
proof (induction s)
  case Nil
  show ?case by (simp add: match_chunk_here_iff [symmetric] match_chunk_here_def)
next
  case (Cons c cs)
  have "search_chunk (c # cs) = None \<longleftrightarrow>
      match_chunk_here (c # cs) = None \<and> search_chunk cs = None"
    by (simp split: option.splits)
  also have "\<dots> \<longleftrightarrow> (\<forall>ds. \<not> chunk_token_at (c # cs) ds) \<and>
      (\<forall>pre t ds. cs = pre @ t \<longrightarrow> \<not> chunk_token_at t ds)"
    unfolding Cons.IH match_chunk_here_iff [symmetric] by auto
  also have "\<dots> \<longleftrightarrow> (\<forall>pre t ds. c # cs = pre @ t \<longrightarrow> \<not> chunk_token_at t ds)"
  proof
    assume a: "(\<forall>ds. \<not> chunk_token_at (c # cs) ds) \<and>
      (\<forall>pre t ds. cs = pre @ t \<longrightarrow> \<not> chunk_token_at t ds)"
    show "\<forall>pre t ds. c # cs = pre @ t \<longrightarrow> \<not> chunk_token_at t ds"
    proof (intro allI impI)
      fix pre t ds assume e: "c # cs = pre @ t"
      show "\<not> chunk_token_at t ds"
      proof (cases pre)
        case Nil
        with e a show ?thesis by simp
      next
        case (Cons x pre')
        with e have "cs = pre' @ t" by simp
        with a show ?thesis by blast
      qed
    qed
  next
    assume a: "\<forall>pre t ds. c # cs = pre @ t \<longrightarrow> \<not> chunk_token_at t ds"
    have "\<not> chunk_token_at (c # cs) ds" for ds
      using a [rule_format, of "[]" "c # cs" ds] by simp
    moreover have "\<not> chunk_token_at t ds" if "cs = pre @ t" for pre t ds
      using a [rule_format, of "c # pre" t ds] that by simp
    ultimately show "(\<forall>ds. \<not> chunk_token_at (c # cs) ds) \<and>
      (\<forall>pre t ds. cs = pre @ t \<longrightarrow> \<not> chunk_token_at t ds)"
      by blast
  qed
  finally show ?case .
qed

lemma search_chunk_Some:
  "search_chunk s = Some ds \<Longrightarrow>
     \<exists>pre t. s = pre @ t \<and> chunk_token_at t ds \<and>
       (\<forall>pre' t' ds'. s = pre' @ t' \<and> chunk_token_at t' ds' \<longrightarrow> length pre \<le> length pre')"
proof (induction s)
  case Nil
  then show ?case by simp
next
  case (Cons c cs)
  show ?case
  proof (cases "match_chunk_here (c # cs)")
    case (Some ds0)
    with Cons.prems have "chunk_token_at (c # cs) ds"
      by (simp add: match_chunk_here_iff [symmetric])
    then have "c # cs = [] @ (c # cs) \<and> chunk_token_at (c # cs) ds \<and>
       (\<forall>pre' t' ds'. c # cs = pre' @ t' \<and> chunk_token_at t' ds' \<longrightarrow> length ([] :: string) \<le> length pre')"
      by simp
    then show ?thesis by blast
  next
    case None
    with Cons.prems have "search_chunk cs = Some ds" by simp
    from Cons.IH [OF this] obtain pre0 t where cs: "cs = pre0 @ t"
      and tok: "chunk_token_at t ds"
      and least: "\<forall>pre' t' ds'. cs = pre' @ t' \<and> chunk_token_at t' ds' \<longrightarrow> length pre0 \<le> length pre'"
      by blast
    have "length (c # pre0) \<le> length pre'"
      if e: "c # cs = pre' @ t'" and tk: "chunk_token_at t' ds'" for pre' t' ds'
    proof (cases pre')
      case Nil
      with e tk have "match_chunk_here (c # cs) = Some ds'"
        by (simp add: match_chunk_here_iff)
      with None show ?thesis by simp
    next
      case (Cons x p)
      with e have "cs = p @ t'" by simp
      with least tk have "length pre0 \<le> length p" by blast
      with Cons show ?thesis by simp
    qed
    then have least': "\<forall>pre' t' ds'. c # cs = pre' @ t' \<and> chunk_token_at t' ds' \<longrightarrow>
          length (c # pre0) \<le> length pre'"
      by blast
    from cs have "c # cs = (c # pre0) @ t" by simp
    with tok least' show ?thesis by blast
  qed
qed

lemma search_chunk_leftmost:
  assumes "s = pre @ t" and "chunk_token_at t ds"
    and "\<forall>pre' t' ds'. s = pre' @ t' \<and> chunk_token_at t' ds' \<longrightarrow> length pre \<le> length pre'"
  shows "search_chunk s = Some ds"
proof -
  from assms(1,2) have "search_chunk s \<noteq> None"
    unfolding search_chunk_None by blast
  then obtain ds0 where ds0: "search_chunk s = Some ds0" by blast
  from search_chunk_Some [OF ds0] obtain pre0 t0 where s0: "s = pre0 @ t0"
    and tok0: "chunk_token_at t0 ds0"
    and least0: "\<forall>pre' t' ds'. s = pre' @ t' \<and> chunk_token_at t' ds' \<longrightarrow> length pre0 \<le> length pre'"
    by blast
  from assms(3) s0 tok0 have "length pre \<le> length pre0" by blast
  moreover from least0 assms(1,2) have "length pre0 \<le> length pre" by blast
  ultimately have "length pre = length pre0" by (rule order_antisym)
  moreover from assms(1) s0 have "pre @ t = pre0 @ t0" by (rule subst)
  ultimately have "t = t0" by simp
  with tok0 assms(2) have "ds0 = ds"
    unfolding match_chunk_here_iff [symmetric] by simp
  with ds0 show ?thesis by simp
qed

lemma example_chunk_nums:
  "chunk_num_of ''Chunk 3'' = ''3''"
  "chunk_num_of ''chunk 3'' = ''3''"
  "chunk_num_of ''CHUNK 3'' = ''unknown''"
  "chunk_num_of ''Chunk 12 - Introduction'' = ''12''"
  by (simp_all add: chunk_num_of_def match_chunk_here_def is_space_def is_digit_def)

subsection \<open>The chunk key of a reference\<close>

text \<open>
  C7 as stated fails: the token is matched with its first letter in either case only, so
  \<^verbatim>\<open>"CHUNK 3"\<close> has no chunk number.
\<close>

theorem extract_chunk_id_upper_case_counterexample:
  "chunk_num_of ''CHUNK 3'' \<noteq> ''3'' \<and>
   extract_chunk_id_from_reference example_md5 ''CHUNK 3'' (Some ''doc.pdf'') =
     ''0123abcd_chunk_unknown''"
proof -
  have h: "file_hash_of example_md5 ''doc.pdf'' = ''0123abcd''"
    unfolding file_hash_of_def example_md5_def by code_simp
  show ?thesis
    by (simp add: extract_chunk_id_from_reference_def Let_def h example_chunk_nums)
qed

text \<open>
  C7, amended. \<^verbatim>\<open>extract_chunk_id_from_reference\<close> finds the first integer that
  follows the token \<^verbatim>\<open>Chunk\<close> or \<^verbatim>\<open>chunk\<close> (only the first letter may be of either
  case) and white space or none: the search gives the digits \<open>ds\<close> exactly when the
  leftmost place of the reference where such a token with an integer begins carries
  \<open>ds\<close>. So \<^verbatim>\<open>"Chunk 3"\<close> and \<^verbatim>\<open>"chunk 3"\<close> give chunk number 3, and
  \<^verbatim>\<open>"CHUNK 3"\<close> gives \<^verbatim>\<open>"unknown"\<close>, which is the chunk number whenever there is no such
  place. With a non-empty file name the result is the file hash, \<^verbatim>\<open>"_chunk_"\<close> and the
  chunk number.
\<close>

theorem extract_chunk_id_first_letter_case:
  "(search_chunk s = Some ds \<longleftrightarrow>
      (\<exists>pre t. s = pre @ t \<and> chunk_token_at t ds \<and>
         (\<forall>pre' t' ds'. s = pre' @ t' \<and> chunk_token_at t' ds' \<longrightarrow> length pre \<le> length pre'))) \<and>
   (search_chunk s = Some ds \<longrightarrow> chunk_num_of s = ds) \<and>
   ((\<forall>pre t ds'. s = pre @ t \<longrightarrow> \<not> chunk_token_at t ds') \<longrightarrow> chunk_num_of s = ''unknown'') \<and>
   (filename \<noteq> [] \<longrightarrow>
      extract_chunk_id_from_reference md5 s (Some filename) =
        file_hash_of md5 filename @ ''_chunk_'' @ chunk_num_of s) \<and>
   chunk_num_of ''Chunk 3'' = ''3'' \<and> chunk_num_of ''chunk 3'' = ''3'' \<and>
   chunk_num_of ''CHUNK 3'' = ''unknown''"
proof -
  have a: "search_chunk s = Some ds \<longleftrightarrow>
      (\<exists>pre t. s = pre @ t \<and> chunk_token_at t ds \<and>
         (\<forall>pre' t' ds'. s = pre' @ t' \<and> chunk_token_at t' ds' \<longrightarrow> length pre \<le> length pre'))"
    using search_chunk_Some [of s ds] search_chunk_leftmost [of s _ _ ds] by blast
  have b: "search_chunk s = Some ds \<longrightarrow> chunk_num_of s = ds"
    by (simp add: chunk_num_of_def)
  have c: "(\<forall>pre t ds'. s = pre @ t \<longrightarrow> \<not> chunk_token_at t ds') \<longrightarrow> chunk_num_of s = ''unknown''"
    unfolding search_chunk_None [symmetric] by (simp add: chunk_num_of_def)
  have d: "filename \<noteq> [] \<longrightarrow>
      extract_chunk_id_from_reference md5 s (Some filename) =
        file_hash_of md5 filename @ ''_chunk_'' @ chunk_num_of s"
    by (simp add: extract_chunk_id_from_reference_def Let_def)
  from a b c d example_chunk_nums(1,2,3) show ?thesis by (intro conjI)
qed

theorem extract_chunk_id_first_letter_case_witness:
  "''see chunk  12 - Introduction'' = ''see '' @ ''chunk  12 - Introduction'' \<and>
   chunk_token_at ''chunk  12 - Introduction'' ''12'' \<and>
   search_chunk ''see chunk  12 - Introduction'' = Some ''12'' \<and>
   chunk_num_of ''see chunk  12 - Introduction'' = ''12'' \<and>
   ''doc.pdf'' \<noteq> [] \<and>
   extract_chunk_id_from_reference example_md5 ''see chunk  12 - Introduction'' (Some ''doc.pdf'') =
     ''0123abcd_chunk_12'' \<and>
   \<not> (\<exists>pre t ds. ''CHUNK 3'' = pre @ t \<and> chunk_token_at t ds) \<and>
   chunk_num_of ''CHUNK 3'' = ''unknown''"
proof -
  have "search_chunk ''CHUNK 3'' = None"
    by (simp add: match_chunk_here_def)
  then have no: "\<forall>pre t ds. ''CHUNK 3'' = pre @ t \<longrightarrow> \<not> chunk_token_at t ds"
    unfolding search_chunk_None .
  from extract_chunk_id_first_letter_case [of "''CHUNK 3''" "[]" "[]" example_md5,
      THEN conjunct2, THEN conjunct2, THEN conjunct1] no
  have u: "chunk_num_of ''CHUNK 3'' = ''unknown''" by (rule mp)
  from no have no': "\<not> (\<exists>pre t ds. ''CHUNK 3'' = pre @ t \<and> chunk_token_at t ds)"
    by blast
  have h: "file_hash_of example_md5 ''doc.pdf'' = ''0123abcd''"
    unfolding file_hash_of_def example_md5_def by code_simp
  have m: "match_chunk_here ''chunk  12 - Introduction'' = Some ''12''"
    by (simp add: match_chunk_here_def is_space_def is_digit_def)
  then have tok: "chunk_token_at ''chunk  12 - Introduction'' ''12''"
    unfolding match_chunk_here_iff .
  have s: "search_chunk ''see chunk  12 - Introduction'' = Some ''12''"
    by (simp add: match_chunk_here_def is_space_def is_digit_def)
  note t = extract_chunk_id_first_letter_case
    [of "''see chunk  12 - Introduction''" "''12''" "''doc.pdf''" example_md5]
  from t [THEN conjunct2, THEN conjunct1] s
  have n: "chunk_num_of ''see chunk  12 - Introduction'' = ''12''" by (rule mp)
  have ne: "''doc.pdf'' \<noteq> []" by simp
  from t [THEN conjunct2, THEN conjunct2, THEN conjunct2, THEN conjunct1] ne
  have "extract_chunk_id_from_reference example_md5 ''see chunk  12 - Introduction''
      (Some ''doc.pdf'') =
      file_hash_of example_md5 ''doc.pdf'' @ ''_chunk_'' @
        chunk_num_of ''see chunk  12 - Introduction''"
    by (rule mp)
  then have e: "extract_chunk_id_from_reference example_md5 ''see chunk  12 - Introduction''
      (Some ''doc.pdf'') = ''0123abcd_chunk_12''"
    unfolding h n by simp
  from tok s n ne e no' u show ?thesis by simp
qed



subsection \<open>The slug of a reference without a file name\<close>

lemma example_slug:
  "lower (replace_spaces (take 50 ''Some free text without chunk marker'')) =
     ''some_free_text_without_chunk_marker''"
  by code_simp

lemma example_slug_bucket:
  "str_in ''_chunk_'' ''some_free_text_without_chunk_marker''"
  "bucket_of ''some_free_text_without_chunk_marker'' = ''some_free_text_without''"
  by (simp_all add: bucket_of_def str_in_def split_head_def)

lemma group_rollups_single:
  "\<exists>f. fst (group_rollups [(k, p)] username w) = [(bucket_of k, f)] \<and>
       r_total_correct f = m_correct p \<and> r_total_attempts f = m_attempts p"
  by (simp add: group_rollups_def fst_group_step stepped_rollup_fields)

lemma finish_rollups_single:
  "map_sum id (map fst) (finish_rollups [(b, f)]) =
     (case accuracy_of (r_total_correct f) (r_total_attempts f) of
        Inl e \<Rightarrow> Inl e | Inr accuracy \<Rightarrow> Inr [b])"
  by (simp add: finish_rollup_def Let_def split: sum.splits)

lemma group_single:
  "map_sum id (map fst) (fst (group_chunks_by_file [(k, p)] username w)) =
     (case accuracy_of (m_correct p) (m_attempts p) of
        Inl e \<Rightarrow> Inl e | Inr accuracy \<Rightarrow> Inr [bucket_of k])"
proof -
  from group_rollups_single [of k p username w]
  obtain f where f: "fst (group_rollups [(k, p)] username w) = [(bucket_of k, f)]"
    "r_total_correct f = m_correct p" "r_total_attempts f = m_attempts p"
    by blast
  have "fst (group_chunks_by_file [(k, p)] username w) = finish_rollups [(bucket_of k, f)]"
    unfolding fst_group_chunks_by_file f(1) ..
  then show ?thesis
    using finish_rollups_single [of "bucket_of k" f] f(2,3) by (simp only:)
qed

lemma group_single_returns:
  assumes "0 \<le> m_correct p" and "m_correct p \<le> m_attempts p"
  shows "map_sum id (map fst) (fst (group_chunks_by_file [(k, p)] username w)) =
           Inr [bucket_of k]"
proof -
  from accuracy_of_returns [OF assms]
  obtain accuracy where "accuracy_of (m_correct p) (m_attempts p) = Inr accuracy" ..
  then show ?thesis unfolding group_single by simp
qed

text \<open>
  C8 as stated fails: the slug of \<^verbatim>\<open>"Some free text without chunk marker"\<close> contains
  \<^verbatim>\<open>"_chunk_"\<close>, and its bucket is not \<^verbatim>\<open>"unknown"\<close>: the dictionary returned
  for this one key, answered once and correctly, has the one file hash
  \<^verbatim>\<open>"some_free_text_without"\<close>.
\<close>

theorem slug_fallback_counterexample:
  "str_in ''_chunk_''
     (extract_chunk_id_from_reference example_md5 ''Some free text without chunk marker'' None) \<and>
   bucket_of
     (extract_chunk_id_from_reference example_md5 ''Some free text without chunk marker'' None)
     \<noteq> ''unknown'' \<and>
   map_sum id (map fst) (fst (group_chunks_by_file
     [(extract_chunk_id_from_reference example_md5 ''Some free text without chunk marker'' None,
       example_metrics 1 0 (Finite False 100) None)] None empty_world)) =
     Inr [''some_free_text_without''] \<and>
   map_sum id (map fst) (fst (group_chunks_by_file
     [(extract_chunk_id_from_reference example_md5 ''Some free text without chunk marker'' None,
       example_metrics 1 0 (Finite False 100) None)] None empty_world)) \<noteq>
     Inr [''unknown'']"
proof -
  have e: "extract_chunk_id_from_reference example_md5 ''Some free text without chunk marker''
      None = ''some_free_text_without_chunk_marker''"
    by (simp only: extract_chunk_id_from_reference_def Let_def option.case example_slug)
  have g: "map_sum id (map fst) (fst (group_chunks_by_file
     [(''some_free_text_without_chunk_marker'',
       example_metrics 1 0 (Finite False 100) None)] None empty_world)) =
     Inr [''some_free_text_without'']"
    unfolding example_slug_bucket(2) [symmetric]
    by (rule group_single_returns) (simp_all add: example_metrics_def)
  show ?thesis
    unfolding e g by (simp add: example_slug_bucket)
qed

text \<open>
  C8, amended. For the input \<^verbatim>\<open>"Some free text without chunk marker"\<close> with no file
  name, \<^verbatim>\<open>extract_chunk_id_from_reference\<close> returns the slug
  \<^verbatim>\<open>"some_free_text_without_chunk_marker"\<close>: the first 50 characters, with the spaces
  replaced by underscores, in lower case. The slug contains \<^verbatim>\<open>"_chunk_"\<close>, so
  \<^verbatim>\<open>group_chunks_by_file\<close> places it in the bucket \<^verbatim>\<open>"some_free_text_without"\<close>:
  that is the one file hash of its first loop, and the one file hash of the dictionary it
  returns, which it does unless the accuracy of the entry raises.
\<close>

theorem slug_fallback_bucket:
  "extract_chunk_id_from_reference md5 ''Some free text without chunk marker'' None =
     ''some_free_text_without_chunk_marker'' \<and>
   lower (replace_spaces (take 50 ''Some free text without chunk marker'')) =
     ''some_free_text_without_chunk_marker'' \<and>
   str_in ''_chunk_'' ''some_free_text_without_chunk_marker'' \<and>
   bucket_of ''some_free_text_without_chunk_marker'' = ''some_free_text_without'' \<and>
   map fst (fst (group_rollups [(''some_free_text_without_chunk_marker'', p)] username w)) =
     [''some_free_text_without''] \<and>
   map_sum id (map fst)
     (fst (group_chunks_by_file [(''some_free_text_without_chunk_marker'', p)] username w)) =
     (case accuracy_of (m_correct p) (m_attempts p) of
        Inl e \<Rightarrow> Inl e | Inr accuracy \<Rightarrow> Inr [''some_free_text_without''])"
proof -
  have e: "extract_chunk_id_from_reference md5 ''Some free text without chunk marker''
      None = ''some_free_text_without_chunk_marker''"
    by (simp only: extract_chunk_id_from_reference_def Let_def option.case example_slug)
  from group_rollups_single [of "''some_free_text_without_chunk_marker''" p username w]
  have r: "map fst (fst (group_rollups [(''some_free_text_without_chunk_marker'', p)] username w)) =
     [''some_free_text_without'']"
    unfolding example_slug_bucket(2) by auto
  have g: "map_sum id (map fst)
     (fst (group_chunks_by_file [(''some_free_text_without_chunk_marker'', p)] username w)) =
     (case accuracy_of (m_correct p) (m_attempts p) of
        Inl e \<Rightarrow> Inl e | Inr accuracy \<Rightarrow> Inr [''some_free_text_without''])"
    unfolding group_single example_slug_bucket(2) ..
  from e example_slug example_slug_bucket r g show ?thesis
    by (intro conjI)
qed



section \<open>The quote markers of a topic name\<close>

subsection \<open>Deleting the matches of a pattern\<close>

lemma re_sub_delete_Nil: "re_sub_delete m [] = []"
  by (simp split: option.splits)

lemma re_sub_delete_skip:
  "m (c # cs) = None \<Longrightarrow> re_sub_delete m (c # cs) = c # re_sub_delete m cs"
  by simp

lemma re_sub_delete_match:
  "m s = Some rest \<Longrightarrow> length rest < length s \<Longrightarrow> re_sub_delete m s = re_sub_delete m rest"
  by simp

lemma re_sub_delete_stuck:
  "m (c # cs) = Some rest \<Longrightarrow> \<not> length rest < length (c # cs) \<Longrightarrow>
     re_sub_delete m (c # cs) = c # re_sub_delete m cs"
  by simp

declare re_sub_delete.simps [simp del]

lemma re_sub_delete_prefix:
  assumes "\<And>c t. c \<in> set pre \<Longrightarrow> m (c # t) = None"
  shows "re_sub_delete m (pre @ s) = pre @ re_sub_delete m s"
  using assms
proof (induction pre)
  case Nil
  show ?case by simp
next
  case (Cons c pre)
  have "m (c # pre @ s) = None" by (rule Cons.prems) simp
  then have "re_sub_delete m (c # pre @ s) = c # re_sub_delete m (pre @ s)"
    by (rule re_sub_delete_skip)
  moreover have "re_sub_delete m (pre @ s) = pre @ re_sub_delete m s"
    by (rule Cons.IH) (simp add: Cons.prems)
  ultimately show ?case by simp
qed

subsection \<open>The two patterns\<close>

lemma lit_append: "lit p (p @ s) = Some s"
  by (simp add: lit_def)

lemma lit_first: "p \<noteq> [] \<Longrightarrow> c \<noteq> hd p \<Longrightarrow> lit p (c # s) = None"
  by (cases p) (simp_all add: lit_def)

lemma space_chars:
  assumes "is_space c"
  shows "c \<noteq> CHR ''E''" "c \<noteq> CHR ''e''" "c \<noteq> CHR ''q''" "c \<noteq> CHR ''X''" "c \<noteq> CHR '':''"
  using assms by (auto simp add: is_space_def)

lemma dropWhile_spaces_then:
  assumes "\<forall>x \<in> set ws. is_space x" and "\<not> is_space c"
  shows "dropWhile is_space (ws @ c # s) = c # s"
  using assms by (simp add: dropWhile_append2)

lemma match_exact_quote_first:
  "c \<noteq> CHR ''E'' \<Longrightarrow> c \<noteq> CHR ''e'' \<Longrightarrow> match_exact_quote (c # t) = None"
  by (simp add: match_exact_quote_def)

lemma match_quote_first: "c \<noteq> CHR ''q'' \<Longrightarrow> match_quote (c # t) = None"
  by (simp add: match_quote_def lit_def)

lemma match_quote_marker:
  assumes "\<forall>x \<in> set ws2. is_space x"
  shows "match_quote (''quote'' @ ws2 @ '':'' @ post) = Some post"
proof -
  have "\<not> is_space CHR '':''" by (simp add: is_space_def)
  with assms have "dropWhile is_space (ws2 @ CHR '':'' # post) = CHR '':'' # post"
    by (rule dropWhile_spaces_then)
  moreover have "lit '':'' (CHR '':'' # post) = Some post"
    using lit_append [of "'':''" post] by simp
  moreover have "lit ''quote'' (''quote'' @ ws2 @ '':'' @ post) = Some (ws2 @ '':'' @ post)"
    by (rule lit_append)
  ultimately show ?thesis by (simp add: match_quote_def)
qed

lemma match_exact_quote_marker:
  assumes "e = CHR ''E'' \<or> e = CHR ''e''" and "ws \<noteq> []"
    and "\<forall>x \<in> set ws. is_space x" and "\<forall>x \<in> set ws2. is_space x"
  shows "match_exact_quote (e # ''XACT'' @ ws @ ''quote'' @ ws2 @ '':'' @ post) = Some post"
proof -
  let ?u = "ws @ ''quote'' @ ws2 @ '':'' @ post"
  have l1: "lit ''XACT'' (''XACT'' @ ?u) = Some ?u" by (rule lit_append)
  from assms(2) obtain x ws' where ws: "ws = x # ws'" by (cases ws) auto
  with assms(3) have "is_space x" by simp
  with ws have t: "takeWhile is_space ?u \<noteq> []" by simp
  have "\<not> is_space CHR ''q''" by (simp add: is_space_def)
  with assms(3) have "dropWhile is_space (ws @ CHR ''q'' # ''uote'' @ ws2 @ '':'' @ post) =
      CHR ''q'' # ''uote'' @ ws2 @ '':'' @ post"
    by (rule dropWhile_spaces_then)
  then have d: "dropWhile is_space ?u = ''quote'' @ ws2 @ '':'' @ post" by simp
  have l2: "lit ''quote'' (''quote'' @ ws2 @ '':'' @ post) = Some (ws2 @ '':'' @ post)"
    by (rule lit_append)
  have "\<not> is_space CHR '':''" by (simp add: is_space_def)
  with assms(4) have d2: "dropWhile is_space (ws2 @ CHR '':'' # post) = CHR '':'' # post"
    by (rule dropWhile_spaces_then)
  have l3: "lit '':'' (CHR '':'' # post) = Some post"
    using lit_append [of "'':''" post] by simp
  have "match_exact_quote (e # (''XACT'' @ ?u)) = Some post"
    unfolding match_exact_quote_def list.case l1 option.case d l2
    using assms(1) t d2 l3 by simp
  then show ?thesis by simp
qed


subsection \<open>Matches next to a marker\<close>

text \<open>
  A literal that does not contain the character \<open>c\<close> is found before \<open>c\<close> or not at all.
\<close>

lemma lit_tail:
  assumes "c \<notin> set p"
  shows "lit p (t @ c # s) = map_option (\<lambda>r. r @ c # s) (lit p t)"
proof -
  have "prefix p t" if "prefix p (t @ c # s)"
  proof -
    from that consider "prefix p t" | us where "p = t @ us" "prefix us (c # s)"
      unfolding prefix_append by blast
    then show ?thesis
    proof cases
      case 1
      then show ?thesis .
    next
      case 2
      with assms have "us = []" by (cases us) auto
      with 2 show ?thesis by simp
    qed
  qed
  then have "prefix p (t @ c # s) \<longleftrightarrow> prefix p t" by auto
  moreover have "drop (length p) (t @ c # s) = drop (length p) t @ c # s" if "prefix p t"
    using that by (simp add: prefix_length_le)
  ultimately show ?thesis by (simp add: lit_def)
qed

text \<open>A literal that ends with \<open>c\<close>, its one occurrence.\<close>

lemma lit_tail_last:
  assumes "c \<notin> set p0"
  shows "lit (p0 @ [c]) (t @ c # s) =
           (if t = p0 then Some s else map_option (\<lambda>r. r @ c # s) (lit (p0 @ [c]) t))"
proof (cases "t = p0")
  case True
  with lit_append [of "p0 @ [c]" s] show ?thesis by simp
next
  case False
  have "prefix (p0 @ [c]) t" if "prefix (p0 @ [c]) (t @ c # s)"
  proof -
    from that consider "prefix (p0 @ [c]) t" | us where "p0 @ [c] = t @ us" "prefix us (c # s)"
      unfolding prefix_append by blast
    then show ?thesis
    proof cases
      case 1
      then show ?thesis .
    next
      case 2
      show ?thesis
      proof (cases us)
        case Nil
        with 2 show ?thesis by simp
      next
        case (Cons u us')
        with 2 have u: "u = c" by simp
        show ?thesis
        proof (cases us' rule: rev_cases)
          case Nil
          with 2 Cons u False show ?thesis by simp
        next
          case (snoc vs v)
          with 2 Cons u have "p0 @ [c] = (t @ c # vs) @ [v]" by simp
          then have "p0 = t @ c # vs" by (simp only: append1_eq_conv)
          with assms show ?thesis by simp
        qed
      qed
    qed
  qed
  then have "prefix (p0 @ [c]) (t @ c # s) \<longleftrightarrow> prefix (p0 @ [c]) t" by auto
  moreover have "drop (length (p0 @ [c])) (t @ c # s) = drop (length (p0 @ [c])) t @ c # s"
    if "prefix (p0 @ [c]) t"
    using prefix_length_le [OF that] by simp
  ultimately show ?thesis using False by (simp add: lit_def)
qed

text \<open>
  Before text that begins with \<^verbatim>\<open>E\<close> or \<^verbatim>\<open>e\<close> and then \<^verbatim>\<open>X\<close> or \<^verbatim>\<open>x\<close>, as
  every casing of the word does, a match of either pattern ends before that text or there
  is none: the only character of the patterns that the first letter can be is the
  \<^verbatim>\<open>e\<close> of \<^verbatim>\<open>quote\<close>, after which the second letter is neither white space nor a
  colon.
\<close>

lemma match_quote_tail:
  assumes c: "c = CHR ''E'' \<or> c = CHR ''e''" and d: "d = CHR ''X'' \<or> d = CHR ''x''"
  shows "match_quote (t @ c # d # s) = map_option (\<lambda>r. r @ c # d # s) (match_quote t)"
proof -
  have nsp: "\<not> is_space c" using c by (auto simp add: is_space_def)
  have dw: "dropWhile is_space (v @ c # r) = dropWhile is_space v @ c # r" for v r
    using nsp by (rule dropWhile_append3)
  have colon: "lit '':'' (v @ c # d # s) = map_option (\<lambda>r. r @ c # d # s) (lit '':'' v)" for v
    by (rule lit_tail) (use c in auto)
  have rest: "lit '':'' (dropWhile is_space (v @ c # d # s)) =
      map_option (\<lambda>r. r @ c # d # s) (lit '':'' (dropWhile is_space v))" for v
    unfolding dw by (rule colon)
  show ?thesis
  proof (cases "c = CHR ''E''")
    case True
    have "lit ''quote'' (t @ c # d # s) = map_option (\<lambda>r. r @ c # d # s) (lit ''quote'' t)"
      by (rule lit_tail) (simp add: True)
    then show ?thesis
      by (cases "lit ''quote'' t") (simp_all add: match_quote_def rest)
  next
    case False
    with c have e: "c = CHR ''e''" by simp
    have "lit (''quot'' @ [c]) (t @ c # d # s) =
        (if t = ''quot'' then Some (d # s)
         else map_option (\<lambda>r. r @ c # d # s) (lit (''quot'' @ [c]) t))"
      by (rule lit_tail_last) (simp add: e)
    then have q: "lit ''quote'' (t @ c # d # s) =
        (if t = ''quot'' then Some (d # s)
         else map_option (\<lambda>r. r @ c # d # s) (lit ''quote'' t))"
      by (simp add: e)
    show ?thesis
    proof (cases "t = ''quot''")
      case True
      have "\<not> is_space d" using d by (auto simp add: is_space_def)
      then have "lit '':'' (dropWhile is_space (d # s)) = None"
        using d by (auto simp add: lit_def)
      moreover have "match_quote ''quot'' = None" by (simp add: match_quote_def lit_def)
      ultimately show ?thesis using q True by (simp add: match_quote_def)
    next
      case False
      with q show ?thesis
        by (cases "lit ''quote'' t") (simp_all add: match_quote_def rest)
    qed
  qed
qed

lemma match_exact_quote_Cons:
  "match_exact_quote (c0 # t) =
     (if c0 = CHR ''E'' \<or> c0 = CHR ''e'' then
        (case lit ''XACT'' t of
           None \<Rightarrow> None
         | Some u \<Rightarrow>
             if takeWhile is_space u = [] then None else match_quote (dropWhile is_space u))
      else None)"
  by (simp add: match_exact_quote_def match_quote_def split: option.splits)

lemma match_exact_quote_tail:
  assumes c: "c = CHR ''E'' \<or> c = CHR ''e''" and d: "d = CHR ''X'' \<or> d = CHR ''x''"
    and t: "t \<noteq> []"
  shows "match_exact_quote (t @ c # d # s) =
           map_option (\<lambda>r. r @ c # d # s) (match_exact_quote t)"
proof -
  from t obtain c0 t1 where t1: "t = c0 # t1" by (cases t) auto
  have nsp: "\<not> is_space c" using c by (auto simp add: is_space_def)
  have dw: "dropWhile is_space (v @ c # r) = dropWhile is_space v @ c # r" for v r
    using nsp by (rule dropWhile_append3)
  have x: "lit ''XACT'' (t1 @ c # d # s) = map_option (\<lambda>r. r @ c # d # s) (lit ''XACT'' t1)"
    by (rule lit_tail) (use c in auto)
  have tw: "takeWhile is_space (u @ c # d # s) = [] \<longleftrightarrow> takeWhile is_space u = []" for u
    using nsp by (cases u) simp_all
  have "match_exact_quote (c0 # t1 @ c # d # s) =
      map_option (\<lambda>r. r @ c # d # s) (match_exact_quote (c0 # t1))"
    unfolding match_exact_quote_Cons x
    by (cases "lit ''XACT'' t1")
      (simp_all add: tw dw match_quote_tail [OF c d])
  then show ?thesis by (simp add: t1)
qed

text \<open>
  So the substitution treats the text before such a tail on its own.
\<close>

lemma re_sub_delete_local:
  assumes "\<And>t. t \<noteq> [] \<Longrightarrow> m (t @ T) = map_option (\<lambda>r. r @ T) (m t)"
  shows "re_sub_delete m (pre @ T) = re_sub_delete m pre @ re_sub_delete m T"
proof (induction "length pre" arbitrary: pre rule: less_induct)
  case less
  show ?case
  proof (cases pre)
    case Nil
    then show ?thesis by (simp add: re_sub_delete_Nil)
  next
    case (Cons c cs)
    then have ne: "pre \<noteq> []" by simp
    have IHcs: "re_sub_delete m (cs @ T) = re_sub_delete m cs @ re_sub_delete m T"
      by (rule less) (simp add: Cons)
    show ?thesis
    proof (cases "m pre")
      case None
      with assms [OF ne] have "m (c # cs @ T) = None" by (simp add: Cons)
      then have "re_sub_delete m (c # cs @ T) = c # re_sub_delete m (cs @ T)"
        by (rule re_sub_delete_skip)
      moreover from None have "re_sub_delete m (c # cs) = c # re_sub_delete m cs"
        unfolding Cons by (rule re_sub_delete_skip)
      ultimately show ?thesis using IHcs by (simp add: Cons)
    next
      case (Some rest)
      with assms [OF ne] have mT: "m (pre @ T) = Some (rest @ T)" by simp
      show ?thesis
      proof (cases "length rest < length pre")
        case True
        from mT have "re_sub_delete m (pre @ T) = re_sub_delete m (rest @ T)"
          by (rule re_sub_delete_match) (simp add: True)
        also have "\<dots> = re_sub_delete m rest @ re_sub_delete m T"
          using True by (rule less)
        also from Some True have "re_sub_delete m rest = re_sub_delete m pre"
          by (rule re_sub_delete_match [symmetric])
        finally show ?thesis .
      next
        case False
        from mT have "m (c # cs @ T) = Some (rest @ T)" by (simp add: Cons)
        then have "re_sub_delete m (c # cs @ T) = c # re_sub_delete m (cs @ T)"
          by (rule re_sub_delete_stuck) (use False in \<open>simp add: Cons\<close>)
        moreover from Some have "m (c # cs) = Some rest" by (simp add: Cons)
        then have "re_sub_delete m (c # cs) = c # re_sub_delete m cs"
          by (rule re_sub_delete_stuck) (use False in \<open>simp add: Cons\<close>)
        ultimately show ?thesis using IHcs by (simp add: Cons)
      qed
    qed
  qed
qed

subsection \<open>Markers in a reference\<close>

lemma strip_exact_marker:
  assumes e: "e = CHR ''E'' \<or> e = CHR ''e''" and ne: "ws \<noteq> []"
    and ws: "\<forall>x \<in> set ws. is_space x" and ws2: "\<forall>x \<in> set ws2. is_space x"
  shows "re_sub_delete match_exact_quote
           (pre @ e # ''XACT'' @ ws @ ''quote'' @ ws2 @ '':'' @ post) =
         re_sub_delete match_exact_quote pre @ re_sub_delete match_exact_quote post"
proof -
  let ?rest = "''ACT'' @ ws @ ''quote'' @ ws2 @ '':'' @ post"
  have "re_sub_delete match_exact_quote (pre @ e # CHR ''X'' # ?rest) =
      re_sub_delete match_exact_quote pre @
      re_sub_delete match_exact_quote (e # CHR ''X'' # ?rest)"
    by (rule re_sub_delete_local, rule match_exact_quote_tail [OF e]) simp_all
  moreover have "re_sub_delete match_exact_quote
      (e # ''XACT'' @ ws @ ''quote'' @ ws2 @ '':'' @ post) =
      re_sub_delete match_exact_quote post"
    using match_exact_quote_marker [OF e ne ws ws2, of post]
    by (rule re_sub_delete_match) simp
  ultimately show ?thesis by simp
qed

lemma strip_plain_prefix:
  assumes "\<forall>c \<in> set pre. c \<noteq> CHR ''E'' \<and> c \<noteq> CHR ''e'' \<and> c \<noteq> CHR ''q''"
  shows "re_sub_delete match_exact_quote pre = pre"
    and "re_sub_delete match_quote (pre @ s) = pre @ re_sub_delete match_quote s"
proof -
  have "re_sub_delete match_exact_quote (pre @ []) = pre @ re_sub_delete match_exact_quote []"
    using assms by (intro re_sub_delete_prefix match_exact_quote_first) auto
  then show "re_sub_delete match_exact_quote pre = pre"
    by (simp add: re_sub_delete_Nil)
  show "re_sub_delete match_quote (pre @ s) = pre @ re_sub_delete match_quote s"
    using assms by (intro re_sub_delete_prefix match_quote_first) auto
qed

lemma strip_other_casing:
  assumes c1: "c1 = CHR ''E'' \<or> c1 = CHR ''e''" and c2: "c2 = CHR ''X'' \<or> c2 = CHR ''x''"
    and c3: "c3 = CHR ''A'' \<or> c3 = CHR ''a''" and c4: "c4 = CHR ''C'' \<or> c4 = CHR ''c''"
    and c5: "c5 = CHR ''T'' \<or> c5 = CHR ''t''" and other: "[c2, c3, c4, c5] \<noteq> ''XACT''"
    and ws: "\<forall>x \<in> set ws. is_space x" and ws2: "\<forall>x \<in> set ws2. is_space x"
  shows "strip_quote_markers (pre @ [c1, c2, c3, c4, c5] @ ws @ ''quote'' @ ws2 @ '':'' @ post) =
           strip_quote_markers pre @ [c1, c2, c3, c4, c5] @ ws @ strip_quote_markers post"
proof -
  let ?x = "re_sub_delete match_exact_quote"
  let ?q = "re_sub_delete match_quote"
  have head: "match_exact_quote (c1 # [c2, c3, c4, c5] @ t) = None" for t
    using other c1 by (auto simp add: match_exact_quote_def lit_def)
  have e_colon: "match_exact_quote (CHR ''e'' # ws2 @ '':'' @ post) = None"
  proof (cases ws2)
    case Nil
    then show ?thesis by (simp add: match_exact_quote_def lit_def)
  next
    case (Cons x ws2')
    with ws2 have "is_space x" by simp
    then have "x \<noteq> CHR ''X''" by (rule space_chars)
    with Cons show ?thesis by (simp add: match_exact_quote_def lit_def)
  qed
  have skip_x: "?x (p @ s) = p @ ?x s"
    if "\<forall>c \<in> set p. c \<noteq> CHR ''E'' \<and> c \<noteq> CHR ''e''" for p s
    using that by (intro re_sub_delete_prefix match_exact_quote_first) auto
  have skip_q: "?q (p @ s) = p @ ?q s" if "\<forall>c \<in> set p. c \<noteq> CHR ''q''" for p s
    using that by (intro re_sub_delete_prefix match_quote_first) auto
  have wsE: "\<forall>c \<in> set ws. c \<noteq> CHR ''E'' \<and> c \<noteq> CHR ''e''"
    using ws by (auto dest: space_chars)
  have ws2E: "\<forall>c \<in> set ws2. c \<noteq> CHR ''E'' \<and> c \<noteq> CHR ''e''"
    using ws2 by (auto dest: space_chars)
  have wsq: "\<forall>c \<in> set ws. c \<noteq> CHR ''q''"
    using ws by (auto dest: space_chars)
  have wq: "\<forall>c \<in> set [c1, c2, c3, c4, c5]. c \<noteq> CHR ''q''"
    using c1 c2 c3 c4 c5 by auto
  have tailE: "\<forall>c \<in> set [c2, c3, c4, c5]. c \<noteq> CHR ''E'' \<and> c \<noteq> CHR ''e''"
    using c2 c3 c4 c5 by auto
  have x1: "?x (''quote'' @ ws2 @ '':'' @ post) = ''quote'' @ ws2 @ '':'' @ ?x post"
  proof -
    have "?x (''quot'' @ CHR ''e'' # ws2 @ '':'' @ post) =
        ''quot'' @ ?x (CHR ''e'' # ws2 @ '':'' @ post)"
      by (rule skip_x) simp
    also have "?x (CHR ''e'' # ws2 @ '':'' @ post) = CHR ''e'' # ?x (ws2 @ '':'' @ post)"
      using e_colon by (rule re_sub_delete_skip)
    also have "?x (ws2 @ '':'' @ post) = ws2 @ ?x ('':'' @ post)"
      using ws2E by (rule skip_x)
    also have "?x ('':'' @ post) = '':'' @ ?x post"
      by (rule skip_x) simp
    finally show ?thesis by simp
  qed
  have "?x (pre @ c1 # c2 # [c3, c4, c5] @ ws @ ''quote'' @ ws2 @ '':'' @ post) =
      ?x pre @ ?x (c1 # c2 # [c3, c4, c5] @ ws @ ''quote'' @ ws2 @ '':'' @ post)"
    by (rule re_sub_delete_local, rule match_exact_quote_tail [OF c1 c2])
  also have "?x (c1 # c2 # [c3, c4, c5] @ ws @ ''quote'' @ ws2 @ '':'' @ post) =
      c1 # ?x ([c2, c3, c4, c5] @ ws @ ''quote'' @ ws2 @ '':'' @ post)"
  proof -
    from head [of "ws @ ''quote'' @ ws2 @ '':'' @ post"]
    have "match_exact_quote (c1 # c2 # [c3, c4, c5] @ ws @ ''quote'' @ ws2 @ '':'' @ post) = None"
      by simp
    then have "?x (c1 # c2 # [c3, c4, c5] @ ws @ ''quote'' @ ws2 @ '':'' @ post) =
        c1 # ?x (c2 # [c3, c4, c5] @ ws @ ''quote'' @ ws2 @ '':'' @ post)"
      by (rule re_sub_delete_skip)
    then show ?thesis by simp
  qed
  also have "?x ([c2, c3, c4, c5] @ ws @ ''quote'' @ ws2 @ '':'' @ post) =
      [c2, c3, c4, c5] @ ?x (ws @ ''quote'' @ ws2 @ '':'' @ post)"
    using tailE by (rule skip_x)
  also have "?x (ws @ ''quote'' @ ws2 @ '':'' @ post) = ws @ ?x (''quote'' @ ws2 @ '':'' @ post)"
    using wsE by (rule skip_x)
  also note x1
  finally have first:
    "?x (pre @ [c1, c2, c3, c4, c5] @ ws @ ''quote'' @ ws2 @ '':'' @ post) =
       ?x pre @ [c1, c2, c3, c4, c5] @ ws @ ''quote'' @ ws2 @ '':'' @ ?x post"
    by simp
  have "?q (?x pre @ c1 # c2 # [c3, c4, c5] @ ws @ ''quote'' @ ws2 @ '':'' @ ?x post) =
      ?q (?x pre) @ ?q (c1 # c2 # [c3, c4, c5] @ ws @ ''quote'' @ ws2 @ '':'' @ ?x post)"
    by (rule re_sub_delete_local, rule match_quote_tail [OF c1 c2])
  also have "?q (c1 # c2 # [c3, c4, c5] @ ws @ ''quote'' @ ws2 @ '':'' @ ?x post) =
      ?q ([c1, c2, c3, c4, c5] @ ws @ ''quote'' @ ws2 @ '':'' @ ?x post)"
    by simp
  also have "?q ([c1, c2, c3, c4, c5] @ ws @ ''quote'' @ ws2 @ '':'' @ ?x post) =
      [c1, c2, c3, c4, c5] @ ?q (ws @ ''quote'' @ ws2 @ '':'' @ ?x post)"
    using wq by (rule skip_q)
  also have "?q (ws @ ''quote'' @ ws2 @ '':'' @ ?x post) =
      ws @ ?q (''quote'' @ ws2 @ '':'' @ ?x post)"
    using wsq by (rule skip_q)
  also have "?q (''quote'' @ ws2 @ '':'' @ ?x post) = ?q (?x post)"
    using match_quote_marker [OF ws2, of "?x post"]
    by (rule re_sub_delete_match) simp
  finally have second:
    "?q (?x pre @ [c1, c2, c3, c4, c5] @ ws @ ''quote'' @ ws2 @ '':'' @ ?x post) =
       ?q (?x pre) @ [c1, c2, c3, c4, c5] @ ws @ ?q (?x post)"
    by simp
  show ?thesis
    unfolding strip_quote_markers_def first second ..
qed


text \<open>
  C9 as stated fails: with the word spelled \<^verbatim>\<open>Exact\<close> or \<^verbatim>\<open>exact\<close> the first
  substitution finds nothing, the second one deletes \<^verbatim>\<open>quote:\<close> only, and the word
  stays in the working text.
\<close>

theorem exact_marker_case_counterexample:
  "format_topic_name_markers ''Chunk 3 - Exact quote: AWS offers'' =
     Some ''Chunk 3 - Exact  AWS offers'' \<and>
   format_topic_name_markers ''exact quote: AWS offers'' = Some ''exact  AWS offers''"
  by code_simp

text \<open>
  C9, amended. In \<^verbatim>\<open>format_topic_name\<close>, step 1 strips the marker whose word is spelled
  \<^verbatim>\<open>EXACT\<close> or \<^verbatim>\<open>eXACT\<close> (only the first letter is matched in either case),
  followed by white space, \<^verbatim>\<open>quote\<close>, white space or none, and a colon. Whatever text
  \<open>pre\<close> comes before such a marker and whatever text \<open>post\<close> comes after it, the first
  substitution removes the marker: its result is its result on \<open>pre\<close> followed by its
  result on \<open>post\<close>, and the working text is the second substitution of that; when
  \<open>pre\<close> has none of the letters E, e and q, the working text is \<open>pre\<close> followed by the
  working text of \<open>post\<close>. With any other casing of the word (\<^verbatim>\<open>Exact quote:\<close>,
  \<^verbatim>\<open>exact quote:\<close>) only \<^verbatim>\<open>quote\<close>, the white space after it and the colon are
  removed: the working text is that of \<open>pre\<close>, the word and the white space after it, and
  the working text of \<open>post\<close>.
\<close>

theorem exact_marker_first_letter_case:
  assumes "ws \<noteq> []" and "\<forall>x \<in> set ws. is_space x" and "\<forall>x \<in> set ws2. is_space x"
  shows "(e = CHR ''E'' \<or> e = CHR ''e'' \<longrightarrow>
            re_sub_delete match_exact_quote
              (pre @ e # ''XACT'' @ ws @ ''quote'' @ ws2 @ '':'' @ post) =
              re_sub_delete match_exact_quote pre @ re_sub_delete match_exact_quote post \<and>
            format_topic_name_markers (pre @ e # ''XACT'' @ ws @ ''quote'' @ ws2 @ '':'' @ post) =
              Some (re_sub_delete match_quote
                (re_sub_delete match_exact_quote pre @ re_sub_delete match_exact_quote post)) \<and>
            ((\<forall>c \<in> set pre. c \<noteq> CHR ''E'' \<and> c \<noteq> CHR ''e'' \<and> c \<noteq> CHR ''q'') \<longrightarrow>
               format_topic_name_markers
                 (pre @ e # ''XACT'' @ ws @ ''quote'' @ ws2 @ '':'' @ post) =
                 Some (pre @ strip_quote_markers post))) \<and>
         ((c1 = CHR ''E'' \<or> c1 = CHR ''e'') \<and> (c2 = CHR ''X'' \<or> c2 = CHR ''x'') \<and>
          (c3 = CHR ''A'' \<or> c3 = CHR ''a'') \<and> (c4 = CHR ''C'' \<or> c4 = CHR ''c'') \<and>
          (c5 = CHR ''T'' \<or> c5 = CHR ''t'') \<and> [c2, c3, c4, c5] \<noteq> ''XACT'' \<longrightarrow>
            format_topic_name_markers
              (pre @ [c1, c2, c3, c4, c5] @ ws @ ''quote'' @ ws2 @ '':'' @ post) =
              Some (strip_quote_markers pre @ [c1, c2, c3, c4, c5] @ ws @
                    strip_quote_markers post))"
proof (intro conjI impI)
  assume e: "e = CHR ''E'' \<or> e = CHR ''e''"
  let ?s = "pre @ e # ''XACT'' @ ws @ ''quote'' @ ws2 @ '':'' @ post"
  have ne: "?s \<noteq> []" by simp
  show x: "re_sub_delete match_exact_quote ?s =
      re_sub_delete match_exact_quote pre @ re_sub_delete match_exact_quote post"
    using e assms by (rule strip_exact_marker)
  from ne show f: "format_topic_name_markers ?s =
      Some (re_sub_delete match_quote
        (re_sub_delete match_exact_quote pre @ re_sub_delete match_exact_quote post))"
    unfolding format_topic_name_markers_def strip_quote_markers_def x by simp
  assume pre: "\<forall>c \<in> set pre. c \<noteq> CHR ''E'' \<and> c \<noteq> CHR ''e'' \<and> c \<noteq> CHR ''q''"
  show "format_topic_name_markers ?s = Some (pre @ strip_quote_markers post)"
    unfolding f strip_plain_prefix [OF pre] strip_quote_markers_def ..
next
  assume c: "(c1 = CHR ''E'' \<or> c1 = CHR ''e'') \<and> (c2 = CHR ''X'' \<or> c2 = CHR ''x'') \<and>
          (c3 = CHR ''A'' \<or> c3 = CHR ''a'') \<and> (c4 = CHR ''C'' \<or> c4 = CHR ''c'') \<and>
          (c5 = CHR ''T'' \<or> c5 = CHR ''t'') \<and> [c2, c3, c4, c5] \<noteq> ''XACT''"
  have "pre @ [c1, c2, c3, c4, c5] @ ws @ ''quote'' @ ws2 @ '':'' @ post \<noteq> []" by simp
  moreover from c have "strip_quote_markers
      (pre @ [c1, c2, c3, c4, c5] @ ws @ ''quote'' @ ws2 @ '':'' @ post) =
      strip_quote_markers pre @ [c1, c2, c3, c4, c5] @ ws @ strip_quote_markers post"
    by (intro strip_other_casing assms(2,3)) simp_all
  ultimately show "format_topic_name_markers
      (pre @ [c1, c2, c3, c4, c5] @ ws @ ''quote'' @ ws2 @ '':'' @ post) =
      Some (strip_quote_markers pre @ [c1, c2, c3, c4, c5] @ ws @ strip_quote_markers post)"
    unfolding format_topic_name_markers_def by simp
qed

theorem exact_marker_first_letter_case_witness:
  "format_topic_name_markers ''See EXACT quote: AWS offers'' = Some ''See  AWS offers'' \<and>
   format_topic_name_markers ''Reference 2 - eXACT quote: AWS offers'' =
     Some ''Reference 2 -  AWS offers'' \<and>
   re_sub_delete match_exact_quote ''Reference 2 - eXACT quote: AWS offers'' =
     ''Reference 2 -  AWS offers'' \<and>
   format_topic_name_markers ''Chunk 3 - EXACT quote: AWS offers'' =
     Some ''Chunk 3 -  AWS offers'' \<and>
   format_topic_name_markers ''See Exact quote: AWS offers'' =
     Some ''See Exact  AWS offers''"
proof -
  have pre: "\<forall>c \<in> set ''Chunk 3 - ''. c \<noteq> CHR ''E'' \<and> c \<noteq> CHR ''e'' \<and> c \<noteq> CHR ''q''"
    by simp
  have ne: "'' '' \<noteq> []" by simp
  have ws: "\<forall>x \<in> set '' ''. is_space x" by (simp add: is_space_def)
  have ws2: "\<forall>x \<in> set ([] :: string). is_space x" by simp
  have post: "strip_quote_markers '' AWS offers'' = '' AWS offers''"
    "re_sub_delete match_exact_quote '' AWS offers'' = '' AWS offers''"
    by code_simp+
  have see: "re_sub_delete match_exact_quote ''See '' = ''See ''"
    "re_sub_delete match_quote (''See '' @ '' AWS offers'') = ''See  AWS offers''"
    "strip_quote_markers ''See '' = ''See ''"
    by code_simp+
  have ref: "re_sub_delete match_exact_quote ''Reference 2 - '' = ''Reference 2 - ''"
    "re_sub_delete match_quote (''Reference 2 - '' @ '' AWS offers'') =
       ''Reference 2 -  AWS offers''"
    by code_simp+
  note t = exact_marker_first_letter_case [OF ne ws ws2, of _ _ "'' AWS offers''"]
  from t [of "CHR ''E''" "''See ''", THEN conjunct1]
  have a: "format_topic_name_markers ''See EXACT quote: AWS offers'' = Some ''See  AWS offers''"
    unfolding post see by simp
  from t [of "CHR ''e''" "''Reference 2 - ''", THEN conjunct1]
  have b: "format_topic_name_markers ''Reference 2 - eXACT quote: AWS offers'' =
     Some ''Reference 2 -  AWS offers'' \<and>
   re_sub_delete match_exact_quote ''Reference 2 - eXACT quote: AWS offers'' =
     ''Reference 2 -  AWS offers''"
    unfolding post ref by simp
  have e: "CHR ''E'' = CHR ''E'' \<or> CHR ''E'' = CHR ''e''" by simp
  from t [of "CHR ''E''" "''Chunk 3 - ''", THEN conjunct1, THEN mp, OF e,
      THEN conjunct2, THEN conjunct2, THEN mp, OF pre]
  have c: "format_topic_name_markers ''Chunk 3 - EXACT quote: AWS offers'' =
     Some ''Chunk 3 -  AWS offers''"
    unfolding post by simp
  from t [of _ "''See ''" "CHR ''E''" "CHR ''x''" "CHR ''a''" "CHR ''c''" "CHR ''t''", THEN conjunct2]
  have d: "format_topic_name_markers ''See Exact quote: AWS offers'' =
     Some ''See Exact  AWS offers''"
    unfolding post see by simp
  from a b c d show ?thesis by (intro conjI) (simp_all only:)
qed



section \<open>The placeholder file name\<close>

lemma finished_filenames:
  assumes "list_all2 (\<lambda>a b. fst b = fst a \<and> finish_rollup (snd a) = Inr (snd b)) fs rs"
  shows "map (\<lambda>e. (fst e, r_filename (snd e))) rs = map (\<lambda>e. (fst e, r_filename (snd e))) fs"
  using assms by (induction rule: list_all2_induct) (auto simp add: finish_rollup_fields)

lemma group_chunks_by_file_filenames:
  assumes "\<forall>e \<in> set all_perf. 0 \<le> m_correct (snd e) \<and> m_correct (snd e) \<le> m_attempts (snd e)"
  shows "map_sum id (map (\<lambda>e. (fst e, r_filename (snd e))))
           (fst (group_chunks_by_file all_perf username w)) =
         Inr (map (\<lambda>e. (fst e, r_filename (snd e))) (fst (group_rollups all_perf username w)))"
proof -
  from group_chunks_by_file_returns [OF assms]
  obtain files where ret: "fst (group_chunks_by_file all_perf username w) = Inr files" ..
  from finished_filenames [OF group_chunks_by_file_Inr [OF ret]] show ?thesis
    unfolding ret by simp
qed

lemma placeholder_bounded:
  "\<forall>e \<in> set mixed_perf. 0 \<le> m_correct (snd e) \<and> m_correct (snd e) \<le> m_attempts (snd e)"
  "\<forall>e \<in> set sentinel_perf. 0 \<le> m_correct (snd e) \<and> m_correct (snd e) \<le> m_attempts (snd e)"
  "\<forall>e \<in> set placeholder_perf. 0 \<le> m_correct (snd e) \<and> m_correct (snd e) \<le> m_attempts (snd e)"
  by (simp_all add: mixed_perf_def sentinel_perf_def placeholder_perf_def example_metrics_def)

text \<open>
  C6 fails in the code, at lines 79 and 293, which lack the test for the placeholder that
  lines 198, 233, 278, 297 and 306 have.

  \<^item> \<^verbatim>\<open>record_quiz_answer\<close>: an entry recorded with the file name
    \<^verbatim>\<open>"unknown_file"\<close> keeps it when the next answer for the same chunk comes with
    \<^verbatim>\<open>"doc.pdf"\<close>.
  \<^item> \<^verbatim>\<open>group_chunks_by_file\<close>, on a chunk with the placeholder followed by a chunk
    of the same file with \<^verbatim>\<open>"doc.pdf"\<close>: with no file mapping the rollup has the
    placeholder as its file name, nothing is registered and nothing is saved; with a file
    mapping that has one entry, of another file, the rollup has \<^verbatim>\<open>"doc.pdf"\<close> and
    the file is registered.
  \<^item> On the chunk with the placeholder alone, the rollup has the placeholder as its file
    name with no file mapping, and no file name with the mapping of the other file.
  \<^item> On a chunk without a file name followed by a chunk of the same file with the
    placeholder, with no file mapping, line 293 copies the placeholder into the rollup.
\<close>

theorem placeholder_blocks_filename:
  "map_option cr_filename (ledger_entry placeholder_world None ''ab12cd34_chunk_1'') =
     Some (Some ''unknown_file'') \<and>
   map_option cr_filename (ledger_entry renamed_world None ''ab12cd34_chunk_1'') =
     Some (Some ''unknown_file'') \<and>
   map_sum id (map (\<lambda>e. (fst e, r_filename (snd e))))
     (fst (group_chunks_by_file mixed_perf None empty_world)) =
     Inr [(''ab12cd34'', Some ''unknown_file'')] \<and>
   st_file_mapping (load_state None (snd (group_chunks_by_file mixed_perf None empty_world))) =
     None \<and>
   saves (snd (group_chunks_by_file mixed_perf None empty_world)) = [] \<and>
   map_sum id (map (\<lambda>e. (fst e, r_filename (snd e))))
     (fst (group_chunks_by_file mixed_perf None unrelated_world)) =
     Inr [(''ab12cd34'', Some ''doc.pdf'')] \<and>
   st_file_mapping (load_state None (snd (group_chunks_by_file mixed_perf None unrelated_world))) =
     Some [(''ffff0000'', ''other.pdf''), (''ab12cd34'', ''doc.pdf'')] \<and>
   length (saves (snd (group_chunks_by_file mixed_perf None unrelated_world))) = 1 \<and>
   map_sum id (map (\<lambda>e. (fst e, r_filename (snd e))))
     (fst (group_chunks_by_file sentinel_perf None empty_world)) =
     Inr [(''ab12cd34'', Some ''unknown_file'')] \<and>
   map_sum id (map (\<lambda>e. (fst e, r_filename (snd e))))
     (fst (group_chunks_by_file sentinel_perf None unrelated_world)) =
     Inr [(''ab12cd34'', None)] \<and>
   map_sum id (map (\<lambda>e. (fst e, r_filename (snd e))))
     (fst (group_chunks_by_file placeholder_perf None empty_world)) =
     Inr [(''ab12cd34'', Some ''unknown_file'')]"
proof -
  have l1: "map_option cr_filename (ledger_entry placeholder_world None ''ab12cd34_chunk_1'') =
     Some (Some ''unknown_file'')"
    by code_simp
  have l2: "map_option cr_filename (ledger_entry renamed_world None ''ab12cd34_chunk_1'') =
     Some (Some ''unknown_file'')"
    by code_simp
  have m1: "map (\<lambda>e. (fst e, r_filename (snd e))) (fst (group_rollups mixed_perf None empty_world)) =
     [(''ab12cd34'', Some ''unknown_file'')]"
    by code_simp
  have m2: "st_file_mapping (load_state None (snd (group_rollups mixed_perf None empty_world))) =
     None"
    by code_simp
  have m3: "saves (snd (group_rollups mixed_perf None empty_world)) = []"
    by code_simp
  have u1: "map (\<lambda>e. (fst e, r_filename (snd e)))
     (fst (group_rollups mixed_perf None unrelated_world)) = [(''ab12cd34'', Some ''doc.pdf'')]"
    by code_simp
  have u2: "st_file_mapping (load_state None (snd (group_rollups mixed_perf None unrelated_world))) =
     Some [(''ffff0000'', ''other.pdf''), (''ab12cd34'', ''doc.pdf'')]"
    by code_simp
  have u3: "length (saves (snd (group_rollups mixed_perf None unrelated_world))) = 1"
    by code_simp
  have s1: "map (\<lambda>e. (fst e, r_filename (snd e)))
     (fst (group_rollups sentinel_perf None empty_world)) = [(''ab12cd34'', Some ''unknown_file'')]"
    by code_simp
  have s2: "map (\<lambda>e. (fst e, r_filename (snd e)))
     (fst (group_rollups sentinel_perf None unrelated_world)) = [(''ab12cd34'', None)]"
    by code_simp
  have p1: "map (\<lambda>e. (fst e, r_filename (snd e)))
     (fst (group_rollups placeholder_perf None empty_world)) =
     [(''ab12cd34'', Some ''unknown_file'')]"
    by code_simp
  show ?thesis
    unfolding group_chunks_by_file_filenames [OF placeholder_bounded(1)]
      group_chunks_by_file_filenames [OF placeholder_bounded(2)]
      group_chunks_by_file_filenames [OF placeholder_bounded(3)]
      snd_group_chunks_by_file l1 l2 m1 m2 m3 u1 u2 u3 s1 s2 p1
    by (intro conjI) (rule refl)+
qed

end
